theory Spec2Isabelle
  imports Complex_Main
begin

section \<open>Numbers of the host language\<close>

text \<open>
  The programs are JavaScript. Clock readings (\<open>Date.now()\<close>, milliseconds since the
  epoch) and request counters are integers and are modelled as \<open>int\<close>. The token count
  of the token bucket is fractional and is modelled as an exact rational; the rounding of
  IEEE doubles is not modelled. A numeric result that JavaScript may leave non-finite
  (a division by zero, arithmetic on \<open>undefined\<close>) is a \<open>jsnum\<close>.
\<close>

datatype jsnum = Num int | Infinity | NaN

section \<open>Token bucket (class \<open>TokenBucket\<close>)\<close>








section \<open>Fixed window (class \<open>FixedWindow\<close>)\<close>

record FixedWindow =
  fw_maxRequests :: int
  fw_windowMs :: int
  count :: int
  windowStart :: int

record fw_result =
  fw_allowed :: bool
  fw_remaining :: int
  fw_resetAt :: int
  fw_retryAfter :: "int option"

definition FixedWindow_new :: "int \<Rightarrow> int \<Rightarrow> int \<Rightarrow> FixedWindow" where
  "FixedWindow_new maxReq wMs now =
     \<lparr>fw_maxRequests = maxReq, fw_windowMs = wMs, count = 0, windowStart = now\<rparr>"

definition checkAndResetWindow :: "FixedWindow \<Rightarrow> int \<Rightarrow> FixedWindow" where
  "checkAndResetWindow w now =
     (let elapsed = now - windowStart w in
      if elapsed \<ge> fw_windowMs w then w\<lparr>count := 0, windowStart := now\<rparr> else w)"

text \<open>
  \<open>allow\<close> reads the clock twice: \<open>t\<close> is the reading inside \<open>checkAndResetWindow\<close>,
  \<open>now\<close> the one \<open>allow\<close> takes afterwards for \<open>retryAfter\<close>.
\<close>

definition FixedWindow_allow :: "FixedWindow \<Rightarrow> int \<Rightarrow> int \<Rightarrow> fw_result \<times> FixedWindow" where
  "FixedWindow_allow w t now =
     (let w1 = checkAndResetWindow w t in
      if count w1 < fw_maxRequests w1 then
        (let w2 = w1\<lparr>count := count w1 + 1\<rparr> in
         (\<lparr>fw_allowed = True, fw_remaining = fw_maxRequests w2 - count w2,
           fw_resetAt = windowStart w2 + fw_windowMs w2, fw_retryAfter = None\<rparr>, w2))
      else
        (let resetAt = windowStart w1 + fw_windowMs w1;
             retryAfter = \<lceil>(of_int (resetAt - now) :: rat) / 1000\<rceil>
         in (\<lparr>fw_allowed = False, fw_remaining = 0, fw_resetAt = resetAt,
              fw_retryAfter = Some retryAfter\<rparr>, w1)))"

text \<open>A call schedule: each call carries its two clock readings.\<close>

fun FixedWindow_run ::
    "FixedWindow \<Rightarrow> (int \<times> int) list \<Rightarrow> fw_result list \<times> FixedWindow" where
  "FixedWindow_run w [] = ([], w)"
| "FixedWindow_run w ((t, now) # cs) =
     (let (r, w1) = FixedWindow_allow w t now; (rs, w2) = FixedWindow_run w1 cs
      in (r # rs, w2))"

definition admitted :: "fw_result list \<Rightarrow> nat" where
  "admitted rs = length (filter fw_allowed rs)"

section \<open>Sliding window (class \<open>SlidingWindow\<close>)\<close>

record SlidingWindow =
  sw_maxRequests :: int
  sw_windowMs :: int
  requests :: "int list"


definition SlidingWindow_new :: "int \<Rightarrow> int \<Rightarrow> SlidingWindow" where
  "SlidingWindow_new maxReq wMs =
     \<lparr>sw_maxRequests = maxReq, sw_windowMs = wMs, requests = []\<rparr>"




section \<open>Distributed sliding window (\<open>distributedRedis.js\<close>)\<close>

text \<open>
  The shared store holds one sorted set per key \<open>ratelimit:<clientId>\<close>: members with
  integer scores, a member occurring at most once. A member written by the limiter is the
  template string \<open>`${now}-${Math.random()}`\<close>; it is modelled by its two parts, so two
  members are equal exactly when both parts are. A sorted set is a list of
  (member, score) pairs; a key that does not exist is the empty list.
\<close>

datatype member = Member int rat

record redis_store =
  zsets :: "string \<Rightarrow> (member \<times> int) list"
  expireSec :: "string \<rightharpoonup> int"

definition zRemRangeByScore ::
    "(member \<times> int) list \<Rightarrow> int \<Rightarrow> int \<Rightarrow> (member \<times> int) list" where
  "zRemRangeByScore z lo hi = filter (\<lambda>e. \<not> (lo \<le> snd e \<and> snd e \<le> hi)) z"

definition zCard :: "(member \<times> int) list \<Rightarrow> int" where
  "zCard z = int (length z)"

definition zRem :: "(member \<times> int) list \<Rightarrow> member \<Rightarrow> (member \<times> int) list" where
  "zRem z v = filter (\<lambda>e. fst e \<noteq> v) z"

text \<open>\<open>ZADD\<close> of a member that is already present replaces its score.\<close>

definition zAdd :: "(member \<times> int) list \<Rightarrow> int \<Rightarrow> member \<Rightarrow> (member \<times> int) list" where
  "zAdd z score v = zRem z v @ [(v, score)]"

text \<open>
  \<open>zRange(key, 0, 0)\<close>: the member of least score, as a list of at most one element.
  Among members of equal score the store orders by the member's bytes; the model takes the
  first listed. The choice only shows in \<open>retryAfter\<close>, and only when two members share a
  score but not a timestamp prefix, which no entry written by the limiter does.
\<close>

definition zRange0 :: "(member \<times> int) list \<Rightarrow> member list" where
  "zRange0 z = (if z = [] then [] else [fst (arg_min_list snd z)])"

text \<open>\<open>parseInt(m.split('-')[0])\<close>: the timestamp prefix; a negative one starts with
  the separator itself and parses to \<open>NaN\<close>.\<close>

definition parseInt_prefix :: "member \<Rightarrow> jsnum" where
  "parseInt_prefix m = (case m of Member ts r \<Rightarrow> if 0 \<le> ts then Num ts else NaN)"

text \<open>
  Each of the three awaited store calls may reject (the store cannot be reached); the
  environment says which one does, if any. A transaction that rejects is taken not to
  have been applied.
\<close>

datatype redis_fault = NoFault | ExecFails | ZRangeFails | ZRemFails

record dr_result =
  dr_allowed :: bool
  dr_remaining :: int
  dr_current :: "int option"
  dr_retryAfter :: "jsnum option"
  dr_error :: "string option"

text \<open>The value returned by the \<open>catch\<close> block.\<close>

definition fail_open :: "int \<Rightarrow> dr_result" where
  "fail_open maxRequests =
     \<lparr>dr_allowed = True, dr_remaining = maxRequests, dr_current = None,
      dr_retryAfter = None, dr_error = Some ''Redis unavailable''\<rparr>"

text \<open>\<open>r1\<close> and \<open>r2\<close> are the values of the two calls of \<open>Math.random()\<close>, in order.\<close>

definition slidingWindowRedis ::
  "redis_store \<Rightarrow> string \<Rightarrow> int \<Rightarrow> int \<Rightarrow> int \<Rightarrow> rat \<Rightarrow> rat \<Rightarrow> redis_fault
     \<Rightarrow> dr_result \<times> redis_store" where
  "slidingWindowRedis st clientId maxRequests windowMs now r1 r2 fault =
     (let key = ''ratelimit:'' @ clientId;
          windowStart = now - windowMs
      in if fault = ExecFails then (fail_open maxRequests, st)
      else
        (let z1 = zRemRangeByScore (zsets st key) 0 windowStart;
             count = zCard z1;
             z2 = zAdd z1 now (Member now r1);
             st1 = st\<lparr>zsets := (zsets st)(key := z2),
                       expireSec := (expireSec st)(key \<mapsto> \<lceil>(of_int windowMs :: rat) / 1000\<rceil>)\<rparr>
         in if count < maxRequests then
              (\<lparr>dr_allowed = True, dr_remaining = maxRequests - count - 1,
                dr_current = Some (count + 1), dr_retryAfter = None, dr_error = None\<rparr>, st1)
            else if fault = ZRangeFails then (fail_open maxRequests, st1)
            else
              (let oldest = zRange0 z2;
                   oldestScore = (case oldest of [] \<Rightarrow> Num now | m # _ \<Rightarrow> parseInt_prefix m);
                   retryAfter = (case oldestScore of
                                   Num s \<Rightarrow> Num \<lceil>(of_int (s + windowMs - now) :: rat) / 1000\<rceil>
                                 | other \<Rightarrow> NaN)
               in if fault = ZRemFails then (fail_open maxRequests, st1)
                  else
                    (\<lparr>dr_allowed = False, dr_remaining = 0, dr_current = Some count,
                      dr_retryAfter = Some (case retryAfter of Num ra \<Rightarrow> Num (max 1 ra)
                                            | other \<Rightarrow> NaN),
                      dr_error = None\<rparr>,
                     st1\<lparr>zsets := (zsets st1)(key := zRem z2 (Member now r2))\<rparr>))))"





text \<open>A store in which client \<open>10.0.0.1\<close> already has two requests logged.\<close>

definition full_store :: redis_store where
  "full_store =
     \<lparr>zsets = (\<lambda>k. if k = ''ratelimit:10.0.0.1''
                    then [(Member 1000 (1 / 4), 1000), (Member 2000 (1 / 2), 2000)] else []),
      expireSec = Map.empty\<rparr>"

section \<open>Long-poll coordinator (the \<open>GET /status\<close> server)\<close>

text \<open>
  The server is single-threaded: a request handler and each timer or event callback runs
  to completion before the next one starts. The model is therefore a state and one
  function per handler or callback; the environment chooses which one runs next, the
  clock readings, and the random numbers of the emitter.
\<close>

record item =
  item_id :: string
  score :: int
  updatedAt :: int

text \<open>
  A JSON response: the status code and the body's \<open>success\<close>, \<open>message\<close> and \<open>data\<close>
  fields (\<open>NoData\<close>: the body has no \<open>data\<close> field; \<open>EmptyData\<close>: \<open>data: {}\<close>).
\<close>

datatype payload = NoData | EmptyData | ItemData item

record response =
  status :: nat
  success :: bool
  message :: string
  data :: payload

text \<open>
  \<open>db[eventId].updatedAt > last_updated\<close> compares a number with a query string, which
  JavaScript first converts with its built-in \<open>ToNumber\<close>. The built-in is a parameter
  \<open>toNumber\<close> of the model; its result is a finite number, an infinity, or \<open>NaN\<close>, and
  every comparison with \<open>NaN\<close> is false.
\<close>

datatype tonumber = Finite rat | PlusInfinity | MinusInfinity | NotANumber

definition js_gt :: "int \<Rightarrow> tonumber \<Rightarrow> bool" where
  "js_gt x y = (case y of Finite r \<Rightarrow> r < of_int x | PlusInfinity \<Rightarrow> False
                | MinusInfinity \<Rightarrow> True | NotANumber \<Rightarrow> False)"

text \<open>
  The state. Every call of the handler gets fresh \<open>req\<close>, \<open>res\<close> and \<open>requestObj\<close>
  objects; they are identified by the request's number. \<open>eventReqs\<close> maps an event to its
  \<open>Set\<close> of request objects, kept in insertion order. \<open>emitters\<close> lists the events whose
  emitter timer is armed, \<open>timeouts\<close> the armed 30-second timers with the event their
  callback closes over and the time they are due, \<open>closeHandlers\<close> the \<open>close\<close>
  listeners with the event they close over, and \<open>sent\<close> what has been written on each
  \<open>res\<close>. Keys that a JavaScript object inherits from its prototype are not modelled:
  \<open>db[eventId]\<close> is defined for the created events only.
\<close>

record server =
  db :: "string \<rightharpoonup> item"
  eventReqs :: "string \<rightharpoonup> nat list"
  emitters :: "string list"
  timeouts :: "nat \<rightharpoonup> string \<times> int"
  closeHandlers :: "nat \<rightharpoonup> string"
  sent :: "nat \<Rightarrow> response list"
  nextReq :: nat

text \<open>An exception that no handler catches ends the process.\<close>

datatype error = UncaughtTypeError

definition headersSent :: "server \<Rightarrow> nat \<Rightarrow> bool" where
  "headersSent st rid = (sent st rid \<noteq> [])"

text \<open>\<open>res.status(..).json(..)\<close>; every call site is guarded by \<open>headersSent\<close> or
  writes on a fresh \<open>res\<close>.\<close>

definition respond :: "server \<Rightarrow> nat \<Rightarrow> response \<Rightarrow> server" where
  "respond st rid r = st\<lparr>sent := (sent st)(rid := sent st rid @ [r])\<rparr>"

definition clearTimeout :: "server \<Rightarrow> nat \<Rightarrow> server" where
  "clearTimeout st rid = st\<lparr>timeouts := (timeouts st)(rid := None)\<rparr>"

definition data_response :: "item option \<Rightarrow> response" where
  "data_response it =
     \<lparr>status = 200, success = True, message = ''Data fetched successfully'',
      data = (case it of None \<Rightarrow> EmptyData | Some i \<Rightarrow> ItemData i)\<rparr>"

definition timeout_response :: response where
  "timeout_response =
     \<lparr>status = 408, success = False, message = ''Request timed out'', data = EmptyData\<rparr>"

definition missing_response :: response where
  "missing_response =
     \<lparr>status = 500, success = False, message = ''eventId and last_updated are required'',
      data = NoData\<rparr>"

definition not_found_response :: response where
  "not_found_response =
     \<lparr>status = 404, success = False, message = ''Event not found'', data = EmptyData\<rparr>"

text \<open>
  \<open>mimicEvents\<close>: the five events \<open>EVENT#00\<close> to \<open>EVENT#04\<close>, each with score 0, its own
  reading of the clock, an empty waiter set and an armed emitter. \<open>clock i\<close> is the
  reading taken in iteration \<open>i\<close>.
\<close>

definition eventIds :: "string list" where
  "eventIds = [''EVENT#00'', ''EVENT#01'', ''EVENT#02'', ''EVENT#03'', ''EVENT#04'']"

fun mimicEvents_loop :: "(nat \<Rightarrow> int) \<Rightarrow> server \<Rightarrow> nat \<Rightarrow> string list \<Rightarrow> server" where
  "mimicEvents_loop clock st i [] = st"
| "mimicEvents_loop clock st i (eventId # rest) =
     mimicEvents_loop clock
       (st\<lparr>db := (db st)(eventId \<mapsto> \<lparr>item_id = eventId, score = 0, updatedAt = clock i\<rparr>),
            eventReqs := (eventReqs st)(eventId \<mapsto> []),
            emitters := emitters st @ [eventId]\<rparr>)
       (Suc i) rest"

definition mimicEvents :: "(nat \<Rightarrow> int) \<Rightarrow> server" where
  "mimicEvents clock =
     mimicEvents_loop clock
       \<lparr>db = Map.empty, eventReqs = Map.empty, emitters = [], timeouts = Map.empty,
        closeHandlers = Map.empty, sent = (\<lambda>rid. []), nextReq = 0\<rparr>
       0 eventIds"

text \<open>
  The callback of \<open>startEmitter\<close>'s timer. \<open>sc\<close> is the random increment, \<open>now\<close> the
  reading of \<open>Date.now()\<close>. \<open>notify\<close> is the body of the \<open>forEach\<close>; the set is cleared
  after the loop. The callback ends by arming the emitter again, so \<open>emitters\<close> is
  unchanged.
\<close>

definition notify :: "string \<Rightarrow> server \<Rightarrow> nat \<Rightarrow> server" where
  "notify eventId st rid =
     (let st1 = clearTimeout st rid in
      if \<not> headersSent st1 rid then respond st1 rid (data_response (db st1 eventId)) else st1)"

definition emitter_callback :: "server \<Rightarrow> string \<Rightarrow> int \<Rightarrow> int \<Rightarrow> error + server" where
  "emitter_callback st eventId sc now =
     (case db st eventId of
        None \<Rightarrow> Inl UncaughtTypeError
      | Some it \<Rightarrow>
          (let st1 = st\<lparr>db := (db st)(eventId \<mapsto> it\<lparr>score := score it + sc, updatedAt := now\<rparr>)\<rparr>
           in case eventReqs st1 eventId of
                None \<Rightarrow> Inr st1
              | Some pendingReqs \<Rightarrow>
                  if length pendingReqs > 0 then
                    (let st2 = foldl (notify eventId) st1 pendingReqs
                     in Inr (st2\<lparr>eventReqs := (eventReqs st2)(eventId \<mapsto> [])\<rparr>))
                  else Inr st1))"

text \<open>
  The same mutation in the order the specification names, clear-then-notify: take the
  waiters, empty the set, then notify each waiter taken.
\<close>

definition mutate_clear_then_notify :: "server \<Rightarrow> string \<Rightarrow> int \<Rightarrow> int \<Rightarrow> error + server" where
  "mutate_clear_then_notify st eventId sc now =
     (case db st eventId of
        None \<Rightarrow> Inl UncaughtTypeError
      | Some it \<Rightarrow>
          (let st1 = st\<lparr>db := (db st)(eventId \<mapsto> it\<lparr>score := score it + sc, updatedAt := now\<rparr>)\<rparr>
           in case eventReqs st1 eventId of
                None \<Rightarrow> Inr st1
              | Some pendingReqs \<Rightarrow>
                  (let st2 = st1\<lparr>eventReqs := (eventReqs st1)(eventId \<mapsto> [])\<rparr>
                   in Inr (foldl (notify eventId) st2 pendingReqs))))"

text \<open>
  The callback of a request's 30-second timer and its \<open>close\<close> listener; \<open>eventId\<close> is
  the event either closes over. A timer that has fired is no longer armed.
\<close>

definition timeout_callback :: "server \<Rightarrow> nat \<Rightarrow> string \<Rightarrow> error + server" where
  "timeout_callback st rid eventId =
     (let st1 = clearTimeout st rid in
      case eventReqs st1 eventId of
        None \<Rightarrow> Inl UncaughtTypeError
      | Some reqs \<Rightarrow>
          (let st2 = st1\<lparr>eventReqs := (eventReqs st1)(eventId \<mapsto> removeAll rid reqs)\<rparr>
           in Inr (if \<not> headersSent st2 rid then respond st2 rid timeout_response else st2)))"

definition close_handler :: "server \<Rightarrow> nat \<Rightarrow> string \<Rightarrow> error + server" where
  "close_handler st rid eventId =
     (let st1 = clearTimeout st rid in
      case eventReqs st1 eventId of
        None \<Rightarrow> Inl UncaughtTypeError
      | Some reqs \<Rightarrow> Inr (st1\<lparr>eventReqs := (eventReqs st1)(eventId \<mapsto> removeAll rid reqs)\<rparr>))"

text \<open>
  The handler of \<open>GET /status\<close>. \<open>eventId\<close> and \<open>last_updated\<close> are the query parameters
  (\<open>None\<close>: absent), \<open>now\<close> the time at which \<open>setTimeout\<close> is called. In the deferred
  path the timer is created before the request object is added to the set; if the set did
  not exist, \<open>add\<close> would throw with the timer already armed, and the \<open>catch\<close> block
  would answer 500.
\<close>

definition GET_status ::
  "(string \<Rightarrow> tonumber) \<Rightarrow> server \<Rightarrow> string option \<Rightarrow> string option \<Rightarrow> int \<Rightarrow> server" where
  "GET_status toNumber st eventId last_updated now =
     (let rid = nextReq st; st0 = st\<lparr>nextReq := Suc rid\<rparr> in
      case (eventId, last_updated) of
        (Some e, Some lu) \<Rightarrow>
          if e = [] then respond st0 rid missing_response
          else
            (case db st0 e of
               Some it \<Rightarrow>
                 if js_gt (updatedAt it) (toNumber lu) then respond st0 rid (data_response (Some it))
                 else
                   (let st1 = st0\<lparr>timeouts := (timeouts st0)(rid \<mapsto> (e, now + 30 * 1000))\<rparr>
                    in case eventReqs st1 e of
                         None \<Rightarrow>
                           respond st1 rid \<lparr>status = 500, success = False,
                             message = ''Error while fetching event status'', data = EmptyData\<rparr>
                       | Some pendingReqs \<Rightarrow>
                           st1\<lparr>eventReqs := (eventReqs st1)(e \<mapsto>
                                  (if rid \<in> set pendingReqs then pendingReqs else pendingReqs @ [rid])),
                               closeHandlers := (closeHandlers st1)(rid \<mapsto> e)\<rparr>)
             | None \<Rightarrow> respond st0 rid not_found_response)
      | _ \<Rightarrow> respond st0 rid missing_response)"

text \<open>
  What the environment can make happen: a request arrives; the emitter timer of an event
  fires with a random increment and a clock reading; the timer of a request fires at time
  \<open>t\<close>; a request's connection closes. A timer fires only while it is armed and not
  before it is due, and a listener runs only where one is registered; otherwise nothing
  happens.
\<close>

datatype event =
    Request "string option" "string option" int
  | EmitterFire string int int
  | TimeoutFire nat int
  | Close nat

definition step :: "(string \<Rightarrow> tonumber) \<Rightarrow> server \<Rightarrow> event \<Rightarrow> error + server" where
  "step toNumber st ev =
     (case ev of
        Request eventId last_updated now \<Rightarrow> Inr (GET_status toNumber st eventId last_updated now)
      | EmitterFire eventId sc now \<Rightarrow>
          if eventId \<in> set (emitters st) then emitter_callback st eventId sc now else Inr st
      | TimeoutFire rid t \<Rightarrow>
          (case timeouts st rid of
             Some (eventId, due) \<Rightarrow> if due \<le> t then timeout_callback st rid eventId else Inr st
           | None \<Rightarrow> Inr st)
      | Close rid \<Rightarrow>
          (case closeHandlers st rid of
             Some eventId \<Rightarrow> close_handler st rid eventId
           | None \<Rightarrow> Inr st))"

fun run :: "(string \<Rightarrow> tonumber) \<Rightarrow> server \<Rightarrow> event list \<Rightarrow> error + server" where
  "run toNumber st [] = Inr st"
| "run toNumber st (ev # evs) =
     (case step toNumber st ev of Inl err \<Rightarrow> Inl err | Inr st1 \<Rightarrow> run toNumber st1 evs)"

subsection \<open>The life of a pending wait\<close>

definition waiters :: "server \<Rightarrow> string \<Rightarrow> nat list" where
  "waiters st e = (case eventReqs st e of None \<Rightarrow> [] | Some ws \<Rightarrow> ws)"

text \<open>
  The states of a wait as the specification names them, read off the server state. A
  request is a wait once the deferred path has registered its \<open>close\<close> listener. It is
  \<open>REGISTERED\<close> while it is in its event's waiter set with its timer armed and nothing
  written on its \<open>res\<close>. Out of all sets and with no timer it is resolved: by data if one
  response with status 200 was written, by timeout if one with status 408 was, cancelled
  if none was. Every other combination (a response written twice, a timer left armed, a
  waiter already answered) is no state of a wait: \<open>None\<close>.
\<close>

datatype wait_state = REGISTERED | RESOLVED_BY_DATA | RESOLVED_BY_TIMEOUT | CANCELLED

fun classify :: "bool \<Rightarrow> bool \<Rightarrow> response list \<Rightarrow> wait_state option" where
  "classify True armed rs = (if armed \<and> rs = [] then Some REGISTERED else None)"
| "classify False True rs = None"
| "classify False False [] = Some CANCELLED"
| "classify False False [r] =
     (if status r = 200 then Some RESOLVED_BY_DATA
      else if status r = 408 then Some RESOLVED_BY_TIMEOUT else None)"
| "classify False False (r # r' # rs) = None"

definition wait_state :: "server \<Rightarrow> nat \<Rightarrow> wait_state option" where
  "wait_state st rid =
     (case closeHandlers st rid of
        None \<Rightarrow> None
      | Some e \<Rightarrow> classify (rid \<in> set (waiters st e)) (timeouts st rid \<noteq> None) (sent st rid))"

text \<open>
  The specification's state machine of a wait on event \<open>e\<close>, of request \<open>rid\<close>, whose
  timer is due at \<open>due\<close>: \<open>REGISTERED\<close> is left by a mutation of \<open>e\<close>, by the wait's own
  timer firing when due, or by the wait's own connection closing; the other three states
  are terminal.
\<close>

fun wait_next :: "string \<Rightarrow> nat \<Rightarrow> int \<Rightarrow> wait_state \<Rightarrow> event \<Rightarrow> wait_state" where
  "wait_next e rid due REGISTERED (EmitterFire e' sc t) =
     (if e' = e then RESOLVED_BY_DATA else REGISTERED)"
| "wait_next e rid due REGISTERED (TimeoutFire r t) =
     (if r = rid \<and> due \<le> t then RESOLVED_BY_TIMEOUT else REGISTERED)"
| "wait_next e rid due REGISTERED (Close r) = (if r = rid then CANCELLED else REGISTERED)"
| "wait_next e rid due REGISTERED (Request a b t) = REGISTERED"
| "wait_next e rid due w ev = w"

definition due_of :: "server \<Rightarrow> nat \<Rightarrow> int" where
  "due_of st rid = (case timeouts st rid of None \<Rightarrow> 0 | Some (e, due) \<Rightarrow> due)"

text \<open>
  The invariant of the reachable states. For each request: it waits only where its
  listener says, its timer is armed only if it has a listener for the same event, a
  request with a listener is an issued one in one of the four states of a wait, and
  nothing has been written for a request not yet issued. The events with an emitter, with
  an item and with a waiter set are the same.
\<close>

definition rid_ok :: "server \<Rightarrow> nat \<Rightarrow> bool" where
  "rid_ok st rid \<longleftrightarrow>
     (\<forall>e. rid \<in> set (waiters st e) \<longrightarrow> closeHandlers st rid = Some e) \<and>
     (\<forall>e due. timeouts st rid = Some (e, due) \<longrightarrow> closeHandlers st rid = Some e) \<and>
     (\<forall>e. closeHandlers st rid = Some e \<longrightarrow>
        e \<in> dom (eventReqs st) \<and> rid < nextReq st \<and> wait_state st rid \<noteq> None) \<and>
     (nextReq st \<le> rid \<longrightarrow> sent st rid = [])"

definition wf :: "server \<Rightarrow> bool" where
  "wf st \<longleftrightarrow>
     set (emitters st) = dom (db st) \<and> dom (eventReqs st) = dom (db st) \<and> (\<forall>rid. rid_ok st rid)"

subsection \<open>The states the handlers lead to\<close>

text \<open>
  Closed forms of the state after each handler, used in the proofs: after the emitter
  callback for an event with item \<open>it\<close> and waiters \<open>ws\<close>, after the timeout callback
  and the close listener of request \<open>rid\<close>, and after \<open>GET /status\<close> has registered a wait
  or answered at once.
\<close>

definition emitted :: "server \<Rightarrow> string \<Rightarrow> item \<Rightarrow> nat list \<Rightarrow> int \<Rightarrow> int \<Rightarrow> server" where
  "emitted st e it ws sc now =
     st\<lparr>db := (db st)(e \<mapsto> it\<lparr>score := score it + sc, updatedAt := now\<rparr>),
        eventReqs := (eventReqs st)(e \<mapsto> []),
        timeouts := (\<lambda>r. if r \<in> set ws then None else timeouts st r),
        sent := (\<lambda>r. if r \<in> set ws \<and> sent st r = []
                     then [data_response (Some (it\<lparr>score := score it + sc, updatedAt := now\<rparr>))]
                     else sent st r)\<rparr>"

definition timed_out :: "server \<Rightarrow> nat \<Rightarrow> string \<Rightarrow> nat list \<Rightarrow> server" where
  "timed_out st rid e ws =
     st\<lparr>timeouts := (timeouts st)(rid := None),
        eventReqs := (eventReqs st)(e \<mapsto> removeAll rid ws),
        sent := (if sent st rid = [] then (sent st)(rid := [timeout_response]) else sent st)\<rparr>"

definition closed :: "server \<Rightarrow> nat \<Rightarrow> string \<Rightarrow> nat list \<Rightarrow> server" where
  "closed st rid e ws =
     st\<lparr>timeouts := (timeouts st)(rid := None),
        eventReqs := (eventReqs st)(e \<mapsto> removeAll rid ws)\<rparr>"

definition registered :: "server \<Rightarrow> string \<Rightarrow> nat list \<Rightarrow> int \<Rightarrow> server" where
  "registered st e ws now =
     st\<lparr>nextReq := Suc (nextReq st),
        timeouts := (timeouts st)(nextReq st \<mapsto> (e, now + 30 * 1000)),
        eventReqs := (eventReqs st)(e \<mapsto> ws @ [nextReq st]),
        closeHandlers := (closeHandlers st)(nextReq st \<mapsto> e)\<rparr>"

definition answered :: "server \<Rightarrow> response \<Rightarrow> server" where
  "answered st r =
     st\<lparr>nextReq := Suc (nextReq st), sent := (sent st)(nextReq st := sent st (nextReq st) @ [r])\<rparr>"

subsection \<open>Concrete runs\<close>

text \<open>
  For the examples: a process whose clock reads 0 throughout start-up, and a conversion
  that is \<open>ToNumber\<close> on the strings the examples use. A string of decimal digits
  converts to its value and the empty string to 0, as in JavaScript; a string with no
  decimal digit, no white space and no occurrence of \<open>Infinity\<close>, such as \<open>abc\<close>, is
  no numeric literal and converts to \<open>NaN\<close>. Other strings (signs, fractions, exponents,
  radix prefixes, padding) are not used; this function maps them to \<open>NaN\<close> too and does
  not describe \<open>ToNumber\<close> there. The general theorems hold for every conversion.
\<close>

definition zero_clock :: "nat \<Rightarrow> int" where
  "zero_clock i = 0"

definition digits_ToNumber :: "string \<Rightarrow> tonumber" where
  "digits_ToNumber s =
     (if s \<noteq> [] \<and> list_all (\<lambda>c. 48 \<le> (of_char c :: nat) \<and> (of_char c :: nat) \<le> 57) s
      then Finite (of_nat (foldl (\<lambda>n c. 10 * n + (of_char c - 48)) 0 s))
      else if s = [] then Finite 0 else NotANumber)"

text \<open>
  The state after \<open>GET /status?eventId=EVENT#00&last_updated=0\<close> arrives at time 0: request 0
  waits on \<open>EVENT#00\<close>; and the states after one and after two mutations of \<open>EVENT#00\<close>
  that both read the clock at 5000.
\<close>

definition waiting0 :: server where
  "waiting0 = registered (mimicEvents zero_clock) ''EVENT#00'' [] 0"

definition mutated_once :: server where
  "mutated_once =
     emitted (mimicEvents zero_clock) ''EVENT#00''
       \<lparr>item_id = ''EVENT#00'', score = 0, updatedAt = 0\<rparr> [] 3 5000"

definition mutated_twice :: server where
  "mutated_twice =
     emitted mutated_once ''EVENT#00''
       \<lparr>item_id = ''EVENT#00'', score = 3, updatedAt = 5000\<rparr> [] 4 5000"

section \<open>Token bucket: proofs\<close>

















section \<open>Fixed window: proofs\<close>

lemma check_same_window:
  "t - windowStart w < fw_windowMs w \<Longrightarrow> checkAndResetWindow w t = w"
  by (simp add: checkAndResetWindow_def Let_def)

lemma allow_same_window:
  assumes "t - windowStart w < fw_windowMs w"
  shows "windowStart (snd (FixedWindow_allow w t now)) = windowStart w"
    and "fw_windowMs (snd (FixedWindow_allow w t now)) = fw_windowMs w"
    and "fw_maxRequests (snd (FixedWindow_allow w t now)) = fw_maxRequests w"
    and "fw_allowed (fst (FixedWindow_allow w t now)) = (count w < fw_maxRequests w)"
    and "count (snd (FixedWindow_allow w t now)) =
           (if count w < fw_maxRequests w then count w + 1 else count w)"
  using assms by (simp_all add: FixedWindow_allow_def check_same_window Let_def)

lemma one_window_bound:
  "\<forall>c \<in> set cs. fst c - windowStart w < fw_windowMs w \<Longrightarrow>
   count w + int (admitted (fst (FixedWindow_run w cs))) \<le> max (count w) (fw_maxRequests w)"
proof (induction cs arbitrary: w)
  case Nil
  then show ?case by (simp add: admitted_def)
next
  case (Cons c cs)
  obtain t now where c: "c = (t, now)" by (cases c)
  let ?w1 = "snd (FixedWindow_allow w t now)"
  have inw: "t - windowStart w < fw_windowMs w" using Cons.prems c by simp
  have "\<forall>c \<in> set cs. fst c - windowStart ?w1 < fw_windowMs ?w1"
    using Cons.prems inw by (simp add: allow_same_window)
  from Cons.IH[OF this]
  have ih: "count ?w1 + int (admitted (fst (FixedWindow_run ?w1 cs)))
              \<le> max (count ?w1) (fw_maxRequests ?w1)" .
  show ?case using ih allow_same_window(3,4,5)[OF inw, of now]
    by (auto simp: c split_beta Let_def admitted_def)
qed

lemma run_append:
  "FixedWindow_run w (as @ bs) =
     (fst (FixedWindow_run w as) @ fst (FixedWindow_run (snd (FixedWindow_run w as)) bs),
      snd (FixedWindow_run (snd (FixedWindow_run w as)) bs))"
  by (induction as arbitrary: w) (auto simp: split_beta Let_def)

text \<open>
  A batch of \<open>k\<close> calls at one clock reading that fits under the limit after the
  window check is admitted whole, and leaves the checked window with \<open>k\<close> more counted.
\<close>

lemma run_replicate:
  assumes "0 < fw_windowMs w"
      and "count (checkAndResetWindow w t) + int k \<le> fw_maxRequests w"
  shows "map fw_allowed (fst (FixedWindow_run w (replicate k (t, now)))) = replicate k True
       \<and> (0 < k \<longrightarrow> snd (FixedWindow_run w (replicate k (t, now)))
             = (checkAndResetWindow w t)\<lparr>count := count (checkAndResetWindow w t) + int k\<rparr>)"
  using assms
proof (induction k arbitrary: w)
  case 0
  then show ?case by simp
next
  case (Suc k)
  let ?w0 = "checkAndResetWindow w t"
  let ?w1 = "?w0\<lparr>count := count ?w0 + 1\<rparr>"
  have f0: "fw_maxRequests ?w0 = fw_maxRequests w" "fw_windowMs ?w0 = fw_windowMs w"
    by (simp_all add: checkAndResetWindow_def Let_def)
  have lt: "count ?w0 < fw_maxRequests ?w0" using Suc.prems f0 by simp
  have a: "FixedWindow_allow w t now =
      (\<lparr>fw_allowed = True, fw_remaining = fw_maxRequests ?w1 - count ?w1,
        fw_resetAt = windowStart ?w1 + fw_windowMs ?w1, fw_retryAfter = None\<rparr>, ?w1)"
    using lt by (simp add: FixedWindow_allow_def Let_def)
  have same: "t - windowStart ?w1 < fw_windowMs ?w1"
    using Suc.prems(1) by (simp add: checkAndResetWindow_def Let_def)
  have c1: "checkAndResetWindow ?w1 t = ?w1" using same by (rule check_same_window)
  have p1: "0 < fw_windowMs ?w1" using Suc.prems f0 by simp
  have p2: "count (checkAndResetWindow ?w1 t) + int k \<le> fw_maxRequests ?w1"
    using Suc.prems f0 by (simp add: c1)
  from Suc.IH[OF p1 p2]
  have ih: "map fw_allowed (fst (FixedWindow_run ?w1 (replicate k (t, now)))) = replicate k True"
    "0 < k \<longrightarrow> snd (FixedWindow_run ?w1 (replicate k (t, now))) = ?w1\<lparr>count := count ?w1 + int k\<rparr>"
    by (simp_all add: c1)
  show ?case using ih by (cases k) (simp_all add: a split_beta Let_def)
qed

lemma burst_all_admitted:
  assumes W: "0 < W"
  shows "map fw_allowed (fst (FixedWindow_run (FixedWindow_new (int N) W t0)
           (replicate N (t0 + W - 1, t0 + W - 1) @ replicate N (t0 + W, t0 + W))))
         = replicate (2 * N) True"
proof (cases N)
  case 0
  then show ?thesis by simp
next
  case (Suc m)
  define w where "w = FixedWindow_new (int N) W t0"
  define A where "A = replicate N (t0 + W - 1, t0 + W - 1)"
  define B where "B = replicate N (t0 + W, t0 + W)"
  have fw: "fw_windowMs w = W" "fw_maxRequests w = int N" "count w = 0" "windowStart w = t0"
    by (simp_all add: w_def FixedWindow_new_def)
  have c0: "checkAndResetWindow w (t0 + W - 1) = w"
    by (rule check_same_window) (simp add: fw)
  have a1: "0 < fw_windowMs w" using W by (simp add: fw)
  have a2: "count (checkAndResetWindow w (t0 + W - 1)) + int N \<le> fw_maxRequests w"
    by (simp add: c0 fw)
  have pos: "0 < N" using Suc by simp
  have A1: "map fw_allowed (fst (FixedWindow_run w A)) = replicate N True"
    using run_replicate[OF a1 a2] by (simp add: A_def)
  have "snd (FixedWindow_run w A) = (checkAndResetWindow w (t0 + W - 1))
          \<lparr>count := count (checkAndResetWindow w (t0 + W - 1)) + int N\<rparr>"
    using run_replicate[OF a1 a2] pos by (simp add: A_def)
  then have A2: "snd (FixedWindow_run w A) = w\<lparr>count := int N\<rparr>"
    by (simp add: c0 fw)
  define w1 where "w1 = w\<lparr>count := int N\<rparr>"
  have fw1: "fw_windowMs w1 = W" "fw_maxRequests w1 = int N" "windowStart w1 = t0"
    by (simp_all add: w1_def fw)
  have b1: "0 < fw_windowMs w1" using W by (simp add: fw1)
  have "count (checkAndResetWindow w1 (t0 + W)) = 0"
    by (simp add: checkAndResetWindow_def Let_def fw1)
  then have b2: "count (checkAndResetWindow w1 (t0 + W)) + int N \<le> fw_maxRequests w1"
    by (simp add: fw1)
  have B1: "map fw_allowed (fst (FixedWindow_run w1 B)) = replicate N True"
    using run_replicate[OF b1 b2] by (simp add: B_def)
  have "replicate N True @ replicate N True = replicate (2 * N) True"
    by (simp add: replicate_add[symmetric] mult_2)
  then have "map fw_allowed (fst (FixedWindow_run w (A @ B))) = replicate (2 * N) True"
    using A1 A2 B1 by (simp add: run_append w1_def)
  then show ?thesis by (simp add: w_def A_def B_def)
qed

text \<open>
  Claim C5. For a fixed window created at \<open>t0\<close> with limit \<open>N\<close> and a positive window
  size \<open>W\<close>, the schedule that issues \<open>N\<close> calls at \<open>t0 + W - 1\<close>, one millisecond before the
  boundary, and \<open>N\<close> more at the boundary \<open>t0 + W\<close> has all \<open>2 * N\<close> calls admitted, within
  a span far shorter than \<open>W\<close>. Within one window at most \<open>N\<close> are admitted: for calls
  that all fall in the current window of any state, the count already recorded plus the
  number admitted never exceeds the limit (or the recorded count, if that was higher); in
  particular a fresh window admits at most \<open>N\<close>.
\<close>

theorem fixed_window_boundary_burst:
  "(0 < W \<longrightarrow>
      map fw_allowed (fst (FixedWindow_run (FixedWindow_new (int N) W t0)
           (replicate N (t0 + W - 1, t0 + W - 1) @ replicate N (t0 + W, t0 + W))))
        = replicate (2 * N) True)
 \<and> ((\<forall>c \<in> set cs. fst c - windowStart w < fw_windowMs w) \<longrightarrow>
      count w + int (admitted (fst (FixedWindow_run w cs))) \<le> max (count w) (fw_maxRequests w))
 \<and> ((\<forall>c \<in> set cs. fst c - t0 < W) \<longrightarrow>
      admitted (fst (FixedWindow_run (FixedWindow_new (int N) W t0) cs)) \<le> N)"
proof (intro conjI impI)
  assume "0 < W"
  then show "map fw_allowed (fst (FixedWindow_run (FixedWindow_new (int N) W t0)
           (replicate N (t0 + W - 1, t0 + W - 1) @ replicate N (t0 + W, t0 + W))))
        = replicate (2 * N) True" by (rule burst_all_admitted)
next
  assume "\<forall>c \<in> set cs. fst c - windowStart w < fw_windowMs w"
  then show "count w + int (admitted (fst (FixedWindow_run w cs))) \<le> max (count w) (fw_maxRequests w)"
    by (rule one_window_bound)
next
  assume h: "\<forall>c \<in> set cs. fst c - t0 < W"
  let ?w = "FixedWindow_new (int N) W t0"
  have "\<forall>c \<in> set cs. fst c - windowStart ?w < fw_windowMs ?w"
    using h by (simp add: FixedWindow_new_def)
  from one_window_bound[OF this]
  show "admitted (fst (FixedWindow_run ?w cs)) \<le> N"
    by (simp add: FixedWindow_new_def)
qed

theorem fixed_window_boundary_burst_witness:
  "(0::int) < 20000
   \<and> map fw_allowed (fst (FixedWindow_run (FixedWindow_new 6 20000 0)
        (replicate 6 (19999, 19999) @ replicate 6 (20000, 20000)))) = replicate 12 True
   \<and> fst (5000::int, 5000::int) - 0 < 20000
   \<and> admitted (fst (FixedWindow_run (FixedWindow_new 6 20000 0) (replicate 7 (5000, 5000)))) \<le> 6"
proof -
  have w: "(0::int) < 20000" by simp
  have c: "\<forall>c \<in> set (replicate 7 (5000::int, 5000::int)). fst c - 0 < 20000" by simp
  have c': "\<forall>c \<in> set (replicate 7 (5000::int, 5000::int)).
      fst c - windowStart (FixedWindow_new 6 20000 0) < fw_windowMs (FixedWindow_new 6 20000 0)"
    by (simp add: FixedWindow_new_def)
  show ?thesis
    using fixed_window_boundary_burst[of 20000 6 0 "replicate 7 (5000, 5000)"
        "FixedWindow_new 6 20000 0"] w c c'
    by simp
qed

section \<open>Sliding window: proofs\<close>








section \<open>Distributed sliding window: proofs\<close>

lemma zRem_absent: "v \<notin> fst ` set z \<Longrightarrow> zRem z v = z"
  by (induction z) (auto simp: zRem_def)

lemma zAdd_members: "fst ` set (zAdd z s v) = insert v (fst ` set z)"
  by (auto simp: zAdd_def zRem_def image_iff)

lemma zRemRange_members: "fst ` set (zRemRangeByScore z lo hi) \<subseteq> fst ` set z"
  by (auto simp: zRemRangeByScore_def)

lemma denial_result:
  assumes "\<not> zCard (zRemRangeByScore (zsets st (''ratelimit:'' @ clientId)) 0 (now - windowMs)) < maxRequests"
  shows "\<not> dr_allowed (fst (slidingWindowRedis st clientId maxRequests windowMs now r1 r2 NoFault))"
    and "zsets (snd (slidingWindowRedis st clientId maxRequests windowMs now r1 r2 NoFault))
           (''ratelimit:'' @ clientId)
         = zRem (zAdd (zRemRangeByScore (zsets st (''ratelimit:'' @ clientId)) 0 (now - windowMs))
                   now (Member now r1)) (Member now r2)"
  using assms by (simp_all add: slidingWindowRedis_def Let_def)

text \<open>
  Claim C9. In the denial path (the purged count has reached \<open>maxRequests\<close> and no store
  call fails) the member inserted is built from the first random value \<open>r1\<close> and the
  member handed to \<open>zRem\<close> from the second, \<open>r2\<close>. When the two values differ and
  neither member was in the set before, the removal targets a member that is not there
  and removes nothing: the set is left as purged plus the inserted entry, the inserted
  entry remains with score \<open>now\<close>, and the set differs from the one before the check.
\<close>

theorem phantom_entry:
  assumes den: "maxRequests \<le> zCard (zRemRangeByScore (zsets st (''ratelimit:'' @ clientId)) 0 (now - windowMs))"
      and ne: "r2 \<noteq> r1"
      and fresh1: "Member now r1 \<notin> fst ` set (zsets st (''ratelimit:'' @ clientId))"
      and fresh2: "Member now r2 \<notin> fst ` set (zsets st (''ratelimit:'' @ clientId))"
  shows "\<not> dr_allowed (fst (slidingWindowRedis st clientId maxRequests windowMs now r1 r2 NoFault))
    \<and> Member now r2 \<notin> fst ` set (zAdd (zRemRangeByScore (zsets st (''ratelimit:'' @ clientId)) 0 (now - windowMs))
                   now (Member now r1))
    \<and> zsets (snd (slidingWindowRedis st clientId maxRequests windowMs now r1 r2 NoFault))
           (''ratelimit:'' @ clientId)
         = zAdd (zRemRangeByScore (zsets st (''ratelimit:'' @ clientId)) 0 (now - windowMs))
                   now (Member now r1)
    \<and> (Member now r1, now) \<in> set (zsets (snd (slidingWindowRedis st clientId maxRequests windowMs now r1 r2 NoFault))
           (''ratelimit:'' @ clientId))
    \<and> set (zsets (snd (slidingWindowRedis st clientId maxRequests windowMs now r1 r2 NoFault))
           (''ratelimit:'' @ clientId)) \<noteq> set (zsets st (''ratelimit:'' @ clientId))"
proof -
  let ?key = "''ratelimit:'' @ clientId"
  let ?z1 = "zRemRangeByScore (zsets st ?key) 0 (now - windowMs)"
  let ?z2 = "zAdd ?z1 now (Member now r1)"
  let ?R = "slidingWindowRedis st clientId maxRequests windowMs now r1 r2 NoFault"
  have den': "\<not> zCard ?z1 < maxRequests" using den by simp
  have "Member now r2 \<notin> fst ` set ?z1" using fresh2 zRemRange_members by blast
  then have absent: "Member now r2 \<notin> fst ` set ?z2" using ne by (simp add: zAdd_members)
  then have nop: "zRem ?z2 (Member now r2) = ?z2" by (rule zRem_absent)
  have st: "zsets (snd ?R) ?key = ?z2" using denial_result(2)[OF den'] nop by simp
  have inz: "(Member now r1, now) \<in> set ?z2" by (simp add: zAdd_def)
  have "(Member now r1, now) \<notin> set (zsets st ?key)" using fresh1 by (force simp: image_iff)
  then have "set ?z2 \<noteq> set (zsets st ?key)" using inz by blast
  then show ?thesis using denial_result(1)[OF den'] st inz absent by simp
qed

theorem phantom_entry_witness:
  "\<not> dr_allowed (fst (slidingWindowRedis full_store ''10.0.0.1'' 2 60000 3000 (1 / 8) (3 / 8) NoFault))
   \<and> zsets full_store ''ratelimit:10.0.0.1''
        = [(Member 1000 (1 / 4), 1000), (Member 2000 (1 / 2), 2000)]
   \<and> zsets (snd (slidingWindowRedis full_store ''10.0.0.1'' 2 60000 3000 (1 / 8) (3 / 8) NoFault))
        ''ratelimit:10.0.0.1''
        = [(Member 1000 (1 / 4), 1000), (Member 2000 (1 / 2), 2000), (Member 3000 (1 / 8), 3000)]"
proof -
  have k: "''ratelimit:'' @ ''10.0.0.1'' = ''ratelimit:10.0.0.1''" by simp
  have z: "zsets full_store (''ratelimit:'' @ ''10.0.0.1'')
        = [(Member 1000 (1 / 4), 1000), (Member 2000 (1 / 2), 2000)]"
    by (simp add: full_store_def)
  have h1: "2 \<le> zCard (zRemRangeByScore (zsets full_store (''ratelimit:'' @ ''10.0.0.1'')) 0 (3000 - 60000))"
    unfolding z by (simp add: zCard_def zRemRangeByScore_def)
  have h2: "(3 / 8 :: rat) \<noteq> 1 / 8" by simp
  have h3: "Member 3000 (1 / 8) \<notin> fst ` set (zsets full_store (''ratelimit:'' @ ''10.0.0.1''))"
    unfolding z by simp
  have h4: "Member 3000 (3 / 8) \<notin> fst ` set (zsets full_store (''ratelimit:'' @ ''10.0.0.1''))"
    unfolding z by simp
  have e: "zAdd (zRemRangeByScore (zsets full_store (''ratelimit:'' @ ''10.0.0.1'')) 0 (3000 - 60000))
             3000 (Member 3000 (1 / 8))
           = [(Member 1000 (1 / 4), 1000), (Member 2000 (1 / 2), 2000), (Member 3000 (1 / 8), 3000)]"
    unfolding z by (simp add: zAdd_def zRem_def zRemRangeByScore_def)
  show ?thesis
    using phantom_entry[OF h1 h2 h3 h4] z e by (simp only: k) simp
qed

lemma fail_open_fields:
  "dr_allowed (fail_open m)" "dr_remaining (fail_open m) = m"
  "dr_error (fail_open m) = Some ''Redis unavailable''"
  by (simp_all add: fail_open_def)



section \<open>Long-poll coordinator: proofs\<close>

subsection \<open>The handlers in closed form\<close>

lemma notify_fields:
  "db (notify e st rid) = db st" "eventReqs (notify e st rid) = eventReqs st"
  "emitters (notify e st rid) = emitters st" "closeHandlers (notify e st rid) = closeHandlers st"
  "nextReq (notify e st rid) = nextReq st"
  "timeouts (notify e st rid) = (timeouts st)(rid := None)"
  "sent (notify e st rid) =
     (if sent st rid = [] then (sent st)(rid := [data_response (db st e)]) else sent st)"
  by (simp_all add: notify_def clearTimeout_def respond_def headersSent_def Let_def)

lemma forEach_notify:
  "db (foldl (notify e) st rids) = db st \<and>
   eventReqs (foldl (notify e) st rids) = eventReqs st \<and>
   emitters (foldl (notify e) st rids) = emitters st \<and>
   closeHandlers (foldl (notify e) st rids) = closeHandlers st \<and>
   nextReq (foldl (notify e) st rids) = nextReq st \<and>
   timeouts (foldl (notify e) st rids) = (\<lambda>r. if r \<in> set rids then None else timeouts st r) \<and>
   sent (foldl (notify e) st rids) =
     (\<lambda>r. if r \<in> set rids \<and> sent st r = [] then [data_response (db st e)] else sent st r)"
proof (induction rids arbitrary: st)
  case Nil
  show ?case by simp
next
  case (Cons a rids)
  show ?case
    unfolding foldl_Cons
    by (simp add: Cons.IH[of "notify e st a"] notify_fields fun_eq_iff)
qed

lemma emitter_callback_eq:
  assumes "db st e = Some it" "eventReqs st e = Some ws"
  shows "emitter_callback st e sc now =
     Inr (st\<lparr>db := (db st)(e \<mapsto> it\<lparr>score := score it + sc, updatedAt := now\<rparr>),
            eventReqs := (eventReqs st)(e \<mapsto> []),
            timeouts := (\<lambda>r. if r \<in> set ws then None else timeouts st r),
            sent := (\<lambda>r. if r \<in> set ws \<and> sent st r = []
                         then [data_response (Some (it\<lparr>score := score it + sc, updatedAt := now\<rparr>))]
                         else sent st r)\<rparr>)"
proof (cases ws)
  case Nil
  have "(eventReqs st)(e \<mapsto> []) = eventReqs st" using assms Nil by (simp add: fun_upd_idem)
  then show ?thesis using assms Nil by (simp add: emitter_callback_def Let_def)
next
  case (Cons a list)
  then have pos: "0 < length ws" by simp
  let ?st1 = "st\<lparr>db := (db st)(e \<mapsto> it\<lparr>score := score it + sc, updatedAt := now\<rparr>)\<rparr>"
  have "emitter_callback st e sc now =
      Inr ((foldl (notify e) ?st1 ws)\<lparr>eventReqs := (eventReqs (foldl (notify e) ?st1 ws))(e \<mapsto> [])\<rparr>)"
    using assms pos by (simp add: emitter_callback_def Let_def)
  also have "(foldl (notify e) ?st1 ws)\<lparr>eventReqs := (eventReqs (foldl (notify e) ?st1 ws))(e \<mapsto> [])\<rparr>
      = st\<lparr>db := (db st)(e \<mapsto> it\<lparr>score := score it + sc, updatedAt := now\<rparr>),
            eventReqs := (eventReqs st)(e \<mapsto> []),
            timeouts := (\<lambda>r. if r \<in> set ws then None else timeouts st r),
            sent := (\<lambda>r. if r \<in> set ws \<and> sent st r = []
                         then [data_response (Some (it\<lparr>score := score it + sc, updatedAt := now\<rparr>))]
                         else sent st r)\<rparr>"
    by (intro server.equality) (simp_all add: forEach_notify fun_eq_iff)
  finally show ?thesis .
qed

lemma timeout_callback_eq:
  assumes "eventReqs st e = Some ws"
  shows "timeout_callback st rid e =
     Inr (st\<lparr>timeouts := (timeouts st)(rid := None),
            eventReqs := (eventReqs st)(e \<mapsto> removeAll rid ws),
            sent := (if sent st rid = [] then (sent st)(rid := [timeout_response]) else sent st)\<rparr>)"
  using assms
  by (simp add: timeout_callback_def clearTimeout_def respond_def headersSent_def Let_def)

lemma close_handler_eq:
  assumes "eventReqs st e = Some ws"
  shows "close_handler st rid e =
     Inr (st\<lparr>timeouts := (timeouts st)(rid := None),
            eventReqs := (eventReqs st)(e \<mapsto> removeAll rid ws)\<rparr>)"
  using assms by (simp add: close_handler_def clearTimeout_def Let_def)

subsection \<open>The states of a wait\<close>

lemma classify_registered: "classify m a rs = Some REGISTERED \<longleftrightarrow> m \<and> a \<and> rs = []"
  by (induction m a rs rule: classify.induct) simp_all

lemma classify_member: "classify m a rs \<noteq> None \<Longrightarrow> m \<Longrightarrow> a \<and> rs = []"
  by (induction m a rs rule: classify.induct) (simp_all split: if_splits)

lemma classify_armed: "classify m a rs \<noteq> None \<Longrightarrow> a \<Longrightarrow> m \<and> rs = []"
  by (induction m a rs rule: classify.induct) (simp_all split: if_splits)

lemma classify_terminal: "classify m a rs = Some w \<Longrightarrow> w \<noteq> REGISTERED \<Longrightarrow> \<not> m \<and> \<not> a"
  by (induction m a rs rule: classify.induct) (simp_all split: if_splits)

lemma wait_state_Some:
  "closeHandlers st rid = Some e \<Longrightarrow>
   wait_state st rid = classify (rid \<in> set (waiters st e)) (timeouts st rid \<noteq> None) (sent st rid)"
  by (simp add: wait_state_def)

lemma wait_state_cong:
  assumes "closeHandlers st' rid = closeHandlers st rid"
      and "\<And>e. closeHandlers st rid = Some e \<Longrightarrow>
             (rid \<in> set (waiters st' e)) = (rid \<in> set (waiters st e))"
      and "(timeouts st' rid = None) = (timeouts st rid = None)"
      and "sent st' rid = sent st rid"
  shows "wait_state st' rid = wait_state st rid"
  using assms by (cases "closeHandlers st rid") (simp_all add: wait_state_def)

lemma registered_iff:
  "wait_state st rid = Some REGISTERED \<longleftrightarrow>
     (\<exists>e. closeHandlers st rid = Some e \<and> rid \<in> set (waiters st e)
          \<and> timeouts st rid \<noteq> None \<and> sent st rid = [])"
  by (cases "closeHandlers st rid") (simp_all add: wait_state_def classify_registered)

lemma member_registered:
  assumes "rid_ok st rid" "rid \<in> set (waiters st e)"
  shows "closeHandlers st rid = Some e \<and> timeouts st rid \<noteq> None \<and> sent st rid = []
    \<and> wait_state st rid = Some REGISTERED \<and> e \<in> dom (eventReqs st) \<and> rid < nextReq st"
proof -
  have c: "closeHandlers st rid = Some e" using assms by (simp add: rid_ok_def)
  have n: "wait_state st rid \<noteq> None \<and> e \<in> dom (eventReqs st) \<and> rid < nextReq st"
    using assms(1) c unfolding rid_ok_def by blast
  have "classify (rid \<in> set (waiters st e)) (timeouts st rid \<noteq> None) (sent st rid) \<noteq> None"
    using n c by (simp add: wait_state_Some)
  from classify_member[OF this assms(2)]
  have a: "timeouts st rid \<noteq> None \<and> sent st rid = []" .
  then have "wait_state st rid = Some REGISTERED"
    using c assms(2) by (simp add: registered_iff)
  then show ?thesis using c n a by simp
qed

lemma armed_registered:
  assumes "rid_ok st rid" "timeouts st rid = Some (e, due)"
  shows "closeHandlers st rid = Some e \<and> rid \<in> set (waiters st e) \<and> sent st rid = []
    \<and> wait_state st rid = Some REGISTERED \<and> e \<in> dom (eventReqs st)"
proof -
  have c: "closeHandlers st rid = Some e" using assms unfolding rid_ok_def by blast
  have n: "wait_state st rid \<noteq> None \<and> e \<in> dom (eventReqs st)"
    using assms(1) c unfolding rid_ok_def by blast
  have ar: "timeouts st rid \<noteq> None" using assms(2) by simp
  have "classify (rid \<in> set (waiters st e)) (timeouts st rid \<noteq> None) (sent st rid) \<noteq> None"
    using n c by (simp add: wait_state_Some)
  from classify_armed[OF this ar]
  have a: "rid \<in> set (waiters st e) \<and> sent st rid = []" .
  then have "wait_state st rid = Some REGISTERED"
    using c ar by (simp add: registered_iff)
  then show ?thesis using c n a by simp
qed

lemma terminal_facts:
  assumes "closeHandlers st rid = Some e" "wait_state st rid = Some w" "w \<noteq> REGISTERED"
  shows "rid \<notin> set (waiters st e) \<and> timeouts st rid = None"
proof -
  have "classify (rid \<in> set (waiters st e)) (timeouts st rid \<noteq> None) (sent st rid) = Some w"
    using assms by (simp add: wait_state_Some)
  from classify_terminal[OF this assms(3)] show ?thesis by blast
qed

lemma waiters_upd:
  "waiters (st\<lparr>eventReqs := (eventReqs st)(e \<mapsto> ws)\<rparr>) e' = (if e' = e then ws else waiters st e')"
  by (simp add: waiters_def)

lemma data_response_status: "status (data_response x) = 200"
  by (simp add: data_response_def)

lemma timeout_response_status: "status timeout_response = 408"
  by (simp add: timeout_response_def)

lemma waiters_Some: "eventReqs st e = Some ws \<Longrightarrow> waiters st e = ws"
  by (simp add: waiters_def)

lemma emitted_fields:
  "db (emitted st e it ws sc now) = (db st)(e \<mapsto> it\<lparr>score := score it + sc, updatedAt := now\<rparr>)"
  "eventReqs (emitted st e it ws sc now) = (eventReqs st)(e \<mapsto> [])"
  "emitters (emitted st e it ws sc now) = emitters st"
  "closeHandlers (emitted st e it ws sc now) = closeHandlers st"
  "nextReq (emitted st e it ws sc now) = nextReq st"
  "timeouts (emitted st e it ws sc now) r = (if r \<in> set ws then None else timeouts st r)"
  "sent (emitted st e it ws sc now) r =
     (if r \<in> set ws \<and> sent st r = []
      then [data_response (Some (it\<lparr>score := score it + sc, updatedAt := now\<rparr>))] else sent st r)"
  "waiters (emitted st e it ws sc now) e' = (if e' = e then [] else waiters st e')"
  by (simp_all add: emitted_def waiters_def)

lemma emitter_enabled:
  assumes "wf st" "e \<in> set (emitters st)"
  shows "\<exists>it ws. db st e = Some it \<and> eventReqs st e = Some ws"
  using assms unfolding wf_def by (metis domD)

lemma emitter_step:
  assumes "e \<in> set (emitters st)" "db st e = Some it" "eventReqs st e = Some ws"
  shows "step tn st (EmitterFire e sc now) = Inr (emitted st e it ws sc now)"
  using assms by (simp add: step_def emitter_callback_eq emitted_def)

lemma emitted_waiter:
  assumes ok: "rid_ok st rid" and ws: "eventReqs st e = Some ws" and m: "rid \<in> set ws"
  shows "wait_state (emitted st e it ws sc now) rid = Some RESOLVED_BY_DATA"
    and "sent (emitted st e it ws sc now) rid
           = [data_response (Some (it\<lparr>score := score it + sc, updatedAt := now\<rparr>))]"
    and "timeouts (emitted st e it ws sc now) rid = None"
proof -
  have m': "rid \<in> set (waiters st e)" using ws m by (simp add: waiters_Some)
  note f = member_registered[OF ok m']
  show s: "sent (emitted st e it ws sc now) rid
           = [data_response (Some (it\<lparr>score := score it + sc, updatedAt := now\<rparr>))]"
    using f m by (simp add: emitted_fields)
  show t: "timeouts (emitted st e it ws sc now) rid = None" using m by (simp add: emitted_fields)
  have c: "closeHandlers (emitted st e it ws sc now) rid = Some e" using f by (simp add: emitted_fields)
  show "wait_state (emitted st e it ws sc now) rid = Some RESOLVED_BY_DATA"
    unfolding wait_state_Some[OF c] s t
    by (simp add: emitted_fields(8) data_response_status)
qed

lemma emitted_other:
  assumes ok: "rid_ok st rid" and ws: "eventReqs st e = Some ws" and m: "rid \<notin> set ws"
  shows "wait_state (emitted st e it ws sc now) rid = wait_state st rid"
    and "sent (emitted st e it ws sc now) rid = sent st rid"
    and "timeouts (emitted st e it ws sc now) rid = timeouts st rid"
proof -
  show s: "sent (emitted st e it ws sc now) rid = sent st rid" using m by (simp add: emitted_fields)
  show t: "timeouts (emitted st e it ws sc now) rid = timeouts st rid"
    using m by (simp add: emitted_fields)
  show "wait_state (emitted st e it ws sc now) rid = wait_state st rid"
  proof (rule wait_state_cong)
    show "closeHandlers (emitted st e it ws sc now) rid = closeHandlers st rid"
      by (simp add: emitted_fields)
    show "(timeouts (emitted st e it ws sc now) rid = None) = (timeouts st rid = None)"
      by (simp add: t)
    show "sent (emitted st e it ws sc now) rid = sent st rid" by (rule s)
    fix e' assume "closeHandlers st rid = Some e'"
    show "(rid \<in> set (waiters (emitted st e it ws sc now) e')) = (rid \<in> set (waiters st e'))"
      using m ws by (simp add: emitted_fields waiters_Some)
  qed
qed

lemma emitted_rid_ok:
  assumes ok: "rid_ok st rid" and ws: "eventReqs st e = Some ws"
  shows "rid_ok (emitted st e it ws sc now) rid"
proof (cases "rid \<in> set ws")
  case True
  have m': "rid \<in> set (waiters st e)" using ws True by (simp add: waiters_Some)
  note f = member_registered[OF ok m']
  note g = emitted_waiter[OF ok ws True, of it sc now]
  have c: "closeHandlers (emitted st e it ws sc now) rid = Some e"
    using f by (simp add: emitted_fields)
  have w: "\<And>e'. rid \<in> set (waiters (emitted st e it ws sc now) e') \<Longrightarrow> e' = e"
  proof -
    fix e' assume a: "rid \<in> set (waiters (emitted st e it ws sc now) e')"
    then have "rid \<in> set (waiters st e')" by (simp add: emitted_fields split: if_splits)
    then have "closeHandlers st rid = Some e'" using ok unfolding rid_ok_def by blast
    then show "e' = e" using f by simp
  qed
  have d: "e \<in> dom (eventReqs (emitted st e it ws sc now))" by (simp add: emitted_fields)
  have n: "rid < nextReq (emitted st e it ws sc now)" using f by (simp add: emitted_fields)
  show ?thesis
    unfolding rid_ok_def using c w d n g by auto
next
  case False
  note g = emitted_other[OF ok ws False, of it sc now]
  have d: "dom (eventReqs (emitted st e it ws sc now)) = dom (eventReqs st)"
    using ws by (auto simp: emitted_fields)
  have w: "\<And>e'. rid \<in> set (waiters (emitted st e it ws sc now) e') \<Longrightarrow> rid \<in> set (waiters st e')"
    by (simp add: emitted_fields split: if_splits)
  show ?thesis
    using ok w unfolding rid_ok_def g d
    by (simp add: emitted_fields)
qed

lemma emitted_wf:
  assumes "wf st" "db st e = Some it" "eventReqs st e = Some ws"
  shows "wf (emitted st e it ws sc now)"
proof -
  have "\<forall>rid. rid_ok (emitted st e it ws sc now) rid"
    using assms emitted_rid_ok unfolding wf_def by blast
  moreover have "dom (eventReqs (emitted st e it ws sc now)) = dom (db (emitted st e it ws sc now))"
    using assms unfolding wf_def by (auto simp: emitted_fields)
  moreover have "set (emitters (emitted st e it ws sc now)) = dom (db (emitted st e it ws sc now))"
    using assms unfolding wf_def by (auto simp: emitted_fields)
  ultimately show ?thesis unfolding wf_def by blast
qed

lemma timed_out_fields:
  "db (timed_out st rid e ws) = db st" "emitters (timed_out st rid e ws) = emitters st"
  "eventReqs (timed_out st rid e ws) = (eventReqs st)(e \<mapsto> removeAll rid ws)"
  "closeHandlers (timed_out st rid e ws) = closeHandlers st"
  "nextReq (timed_out st rid e ws) = nextReq st"
  "timeouts (timed_out st rid e ws) r = (if r = rid then None else timeouts st r)"
  "sent (timed_out st rid e ws) r =
     (if r = rid \<and> sent st rid = [] then [timeout_response] else sent st r)"
  "waiters (timed_out st rid e ws) e' = (if e' = e then removeAll rid ws else waiters st e')"
  by (simp_all add: timed_out_def waiters_def)

lemma closed_fields:
  "db (closed st rid e ws) = db st" "emitters (closed st rid e ws) = emitters st"
  "eventReqs (closed st rid e ws) = (eventReqs st)(e \<mapsto> removeAll rid ws)"
  "closeHandlers (closed st rid e ws) = closeHandlers st"
  "nextReq (closed st rid e ws) = nextReq st"
  "timeouts (closed st rid e ws) r = (if r = rid then None else timeouts st r)"
  "sent (closed st rid e ws) = sent st"
  "waiters (closed st rid e ws) e' = (if e' = e then removeAll rid ws else waiters st e')"
  by (simp_all add: closed_def waiters_def)

lemma registered_fields:
  "db (registered st e ws now) = db st" "emitters (registered st e ws now) = emitters st"
  "eventReqs (registered st e ws now) = (eventReqs st)(e \<mapsto> ws @ [nextReq st])"
  "closeHandlers (registered st e ws now) = (closeHandlers st)(nextReq st \<mapsto> e)"
  "nextReq (registered st e ws now) = Suc (nextReq st)"
  "timeouts (registered st e ws now) = (timeouts st)(nextReq st \<mapsto> (e, now + 30 * 1000))"
  "sent (registered st e ws now) = sent st"
  "waiters (registered st e ws now) e' = (if e' = e then ws @ [nextReq st] else waiters st e')"
  by (simp_all add: registered_def waiters_def)

lemma answered_fields:
  "db (answered st r) = db st" "emitters (answered st r) = emitters st"
  "eventReqs (answered st r) = eventReqs st"
  "closeHandlers (answered st r) = closeHandlers st"
  "nextReq (answered st r) = Suc (nextReq st)"
  "timeouts (answered st r) = timeouts st"
  "sent (answered st r) = (sent st)(nextReq st := sent st (nextReq st) @ [r])"
  "waiters (answered st r) e' = waiters st e'"
  by (simp_all add: answered_def waiters_def)

lemma timeout_step:
  assumes "timeouts st rid = Some (e, due)" "due \<le> t" "eventReqs st e = Some ws"
  shows "step tn st (TimeoutFire rid t) = Inr (timed_out st rid e ws)"
  using assms by (simp add: step_def timeout_callback_eq timed_out_def)

lemma timeout_not_due:
  "timeouts st rid = None \<or> (\<exists>e due. timeouts st rid = Some (e, due) \<and> t < due) \<Longrightarrow>
   step tn st (TimeoutFire rid t) = Inr st"
  by (auto simp: step_def)

lemma close_step:
  assumes "closeHandlers st rid = Some e" "eventReqs st e = Some ws"
  shows "step tn st (Close rid) = Inr (closed st rid e ws)"
  using assms by (simp add: step_def close_handler_eq closed_def)

lemma fresh_request:
  assumes "rid_ok st (nextReq st)"
  shows "closeHandlers st (nextReq st) = None \<and> timeouts st (nextReq st) = None
    \<and> sent st (nextReq st) = [] \<and> (\<forall>e. nextReq st \<notin> set (waiters st e))"
proof -
  have c: "closeHandlers st (nextReq st) = None"
  proof (cases "closeHandlers st (nextReq st)")
    case (Some e)
    then have "nextReq st < nextReq st" using assms unfolding rid_ok_def by blast
    then show ?thesis by simp
  qed simp
  have t: "timeouts st (nextReq st) = None"
  proof (cases "timeouts st (nextReq st)")
    case (Some p)
    obtain e due where "p = (e, due)" by (cases p)
    then have "closeHandlers st (nextReq st) = Some e" using Some assms unfolding rid_ok_def by blast
    then show ?thesis using c by simp
  qed simp
  have s: "sent st (nextReq st) = []" using assms unfolding rid_ok_def by blast
  have w: "\<forall>e. nextReq st \<notin> set (waiters st e)"
    using assms c unfolding rid_ok_def by auto
  show ?thesis using c t s w by blast
qed

text \<open>Requests other than the one a timeout or close callback belongs to are untouched.\<close>

lemma timed_out_other:
  assumes "r \<noteq> rid" and ws: "eventReqs st e = Some ws"
  shows "wait_state (timed_out st rid e ws) r = wait_state st r"
    and "sent (timed_out st rid e ws) r = sent st r"
    and "timeouts (timed_out st rid e ws) r = timeouts st r"
    and "(r \<in> set (waiters (timed_out st rid e ws) e')) = (r \<in> set (waiters st e'))"
proof -
  show s: "sent (timed_out st rid e ws) r = sent st r" using assms by (simp add: timed_out_fields)
  show t: "timeouts (timed_out st rid e ws) r = timeouts st r"
    using assms by (simp add: timed_out_fields)
  show w: "(r \<in> set (waiters (timed_out st rid e ws) e')) = (r \<in> set (waiters st e'))" for e'
    using assms by (simp add: timed_out_fields waiters_Some)
  show "wait_state (timed_out st rid e ws) r = wait_state st r"
    by (rule wait_state_cong) (simp_all add: s t w, simp add: timed_out_fields)
qed

lemma closed_other:
  assumes "r \<noteq> rid" and ws: "eventReqs st e = Some ws"
  shows "wait_state (closed st rid e ws) r = wait_state st r"
    and "sent (closed st rid e ws) r = sent st r"
    and "timeouts (closed st rid e ws) r = timeouts st r"
    and "(r \<in> set (waiters (closed st rid e ws) e')) = (r \<in> set (waiters st e'))"
proof -
  show s: "sent (closed st rid e ws) r = sent st r" by (simp add: closed_fields)
  show t: "timeouts (closed st rid e ws) r = timeouts st r"
    using assms by (simp add: closed_fields)
  show w: "(r \<in> set (waiters (closed st rid e ws) e')) = (r \<in> set (waiters st e'))" for e'
    using assms by (simp add: closed_fields waiters_Some)
  show "wait_state (closed st rid e ws) r = wait_state st r"
    by (rule wait_state_cong) (simp_all add: s t w, simp add: closed_fields)
qed

lemma registered_other:
  assumes "r \<noteq> nextReq st" and ws: "eventReqs st e = Some ws"
  shows "wait_state (registered st e ws now) r = wait_state st r"
    and "sent (registered st e ws now) r = sent st r"
    and "timeouts (registered st e ws now) r = timeouts st r"
    and "closeHandlers (registered st e ws now) r = closeHandlers st r"
    and "(r \<in> set (waiters (registered st e ws now) e')) = (r \<in> set (waiters st e'))"
proof -
  show s: "sent (registered st e ws now) r = sent st r" by (simp add: registered_fields)
  show t: "timeouts (registered st e ws now) r = timeouts st r"
    using assms by (simp add: registered_fields)
  show c: "closeHandlers (registered st e ws now) r = closeHandlers st r"
    using assms by (simp add: registered_fields)
  show w: "(r \<in> set (waiters (registered st e ws now) e')) = (r \<in> set (waiters st e'))" for e'
    using assms by (simp add: registered_fields waiters_Some)
  show "wait_state (registered st e ws now) r = wait_state st r"
    by (rule wait_state_cong) (simp_all add: s t w c)
qed

lemma answered_other:
  assumes "r \<noteq> nextReq st"
  shows "wait_state (answered st x) r = wait_state st r"
    and "sent (answered st x) r = sent st r"
proof -
  show s: "sent (answered st x) r = sent st r" using assms by (simp add: answered_fields)
  show "wait_state (answered st x) r = wait_state st r"
    using assms by (intro wait_state_cong) (simp_all add: answered_fields)
qed

text \<open>The request a callback belongs to.\<close>

lemma timed_out_self:
  assumes ok: "rid_ok st rid" and t: "timeouts st rid = Some (e, due)"
  shows "wait_state (timed_out st rid e ws) rid = Some RESOLVED_BY_TIMEOUT"
    and "sent (timed_out st rid e ws) rid = [timeout_response]"
    and "timeouts (timed_out st rid e ws) rid = None"
    and "rid \<notin> set (waiters (timed_out st rid e ws) e')"
proof -
  note f = armed_registered[OF ok t]
  show s: "sent (timed_out st rid e ws) rid = [timeout_response]"
    using f by (simp add: timed_out_fields)
  show a: "timeouts (timed_out st rid e ws) rid = None" by (simp add: timed_out_fields)
  show w: "rid \<notin> set (waiters (timed_out st rid e ws) e')" for e'
  proof (cases "e' = e")
    case True
    then show ?thesis by (simp add: timed_out_fields)
  next
    case False
    have "rid \<notin> set (waiters st e')"
    proof
      assume "rid \<in> set (waiters st e')"
      then have "closeHandlers st rid = Some e'" using ok unfolding rid_ok_def by blast
      then show False using f False by simp
    qed
    then show ?thesis using False by (simp add: timed_out_fields)
  qed
  have c: "closeHandlers (timed_out st rid e ws) rid = Some e"
    using f by (simp add: timed_out_fields)
  show "wait_state (timed_out st rid e ws) rid = Some RESOLVED_BY_TIMEOUT"
    unfolding wait_state_Some[OF c] s a using w by (simp add: timeout_response_status)
qed

lemma closed_self:
  assumes ok: "rid_ok st rid" and c: "closeHandlers st rid = Some e"
  shows "wait_state st rid = Some REGISTERED \<Longrightarrow> wait_state (closed st rid e ws) rid = Some CANCELLED"
    and "wait_state st rid \<noteq> Some REGISTERED \<Longrightarrow>
           wait_state (closed st rid e ws) rid = wait_state st rid"
    and "sent (closed st rid e ws) rid = sent st rid"
    and "timeouts (closed st rid e ws) rid = None"
    and "rid \<notin> set (waiters (closed st rid e ws) e')"
proof -
  show s: "sent (closed st rid e ws) rid = sent st rid" by (simp add: closed_fields)
  show a: "timeouts (closed st rid e ws) rid = None" by (simp add: closed_fields)
  show w: "rid \<notin> set (waiters (closed st rid e ws) e')" for e'
  proof (cases "e' = e")
    case True
    then show ?thesis by (simp add: closed_fields)
  next
    case False
    have "rid \<notin> set (waiters st e')"
    proof
      assume "rid \<in> set (waiters st e')"
      then have "closeHandlers st rid = Some e'" using ok unfolding rid_ok_def by blast
      then show False using c False by simp
    qed
    then show ?thesis using False by (simp add: closed_fields)
  qed
  have c': "closeHandlers (closed st rid e ws) rid = Some e" using c by (simp add: closed_fields)
  have ws': "wait_state (closed st rid e ws) rid = classify False False (sent st rid)"
    unfolding wait_state_Some[OF c'] s a using w by simp
  show "wait_state (closed st rid e ws) rid = Some CANCELLED" if "wait_state st rid = Some REGISTERED"
  proof -
    have "sent st rid = []" using that by (auto simp: registered_iff)
    then show ?thesis by (simp add: ws')
  qed
  show "wait_state (closed st rid e ws) rid = wait_state st rid"
    if nr: "wait_state st rid \<noteq> Some REGISTERED"
  proof -
    have nn: "wait_state st rid \<noteq> None" using ok c unfolding rid_ok_def by blast
    then obtain x where x: "wait_state st rid = Some x" by blast
    then have "x \<noteq> REGISTERED" using nr by simp
    from terminal_facts[OF c x this]
    have "wait_state st rid = classify False False (sent st rid)"
      by (simp add: wait_state_Some[OF c])
    then show ?thesis by (simp add: ws')
  qed
qed

lemma registered_self:
  assumes ok: "rid_ok st (nextReq st)"
  shows "wait_state (registered st e ws now) (nextReq st) = Some REGISTERED"
    and "sent (registered st e ws now) (nextReq st) = []"
    and "timeouts (registered st e ws now) (nextReq st) = Some (e, now + 30 * 1000)"
    and "closeHandlers (registered st e ws now) (nextReq st) = Some e"
    and "nextReq st \<in> set (waiters (registered st e ws now) e)"
proof -
  note f = fresh_request[OF ok]
  show s: "sent (registered st e ws now) (nextReq st) = []" using f by (simp add: registered_fields)
  show t: "timeouts (registered st e ws now) (nextReq st) = Some (e, now + 30 * 1000)"
    by (simp add: registered_fields)
  show c: "closeHandlers (registered st e ws now) (nextReq st) = Some e"
    by (simp add: registered_fields)
  show w: "nextReq st \<in> set (waiters (registered st e ws now) e)"
    by (simp add: registered_fields)
  show "wait_state (registered st e ws now) (nextReq st) = Some REGISTERED"
    using c w t s by (simp add: registered_iff)
qed

lemma rid_ok_transfer:
  assumes ok: "rid_ok st r"
      and c: "closeHandlers st' r = closeHandlers st r"
      and w: "\<And>e'. r \<in> set (waiters st' e') \<Longrightarrow> r \<in> set (waiters st e')"
      and t: "timeouts st' r = None \<or> timeouts st' r = timeouts st r"
      and d: "dom (eventReqs st) \<subseteq> dom (eventReqs st')"
      and n: "nextReq st \<le> nextReq st'"
      and s: "nextReq st' \<le> r \<Longrightarrow> sent st' r = sent st r"
      and ws: "\<And>e. closeHandlers st r = Some e \<Longrightarrow> wait_state st' r \<noteq> None"
  shows "rid_ok st' r"
  unfolding rid_ok_def
proof (intro conjI allI impI)
  fix e assume "r \<in> set (waiters st' e)"
  then have "r \<in> set (waiters st e)" by (rule w)
  then show "closeHandlers st' r = Some e" using ok c unfolding rid_ok_def by simp
next
  fix e due assume "timeouts st' r = Some (e, due)"
  then have "timeouts st r = Some (e, due)" using t by auto
  then show "closeHandlers st' r = Some e" using ok c unfolding rid_ok_def by simp
next
  fix e assume a: "closeHandlers st' r = Some e"
  then have a': "closeHandlers st r = Some e" using c by simp
  then have b: "e \<in> dom (eventReqs st) \<and> r < nextReq st" using ok unfolding rid_ok_def by blast
  show "e \<in> dom (eventReqs st')" using b d by blast
  show "r < nextReq st'" using b n by simp
  show "wait_state st' r \<noteq> None" using a' by (rule ws)
next
  assume a: "nextReq st' \<le> r"
  then have "nextReq st \<le> r" using n by simp
  then have "sent st r = []" using ok unfolding rid_ok_def by blast
  then show "sent st' r = []" using s[OF a] by simp
qed

lemma wait_state_ok: "rid_ok st r \<Longrightarrow> closeHandlers st r = Some e \<Longrightarrow> wait_state st r \<noteq> None"
  unfolding rid_ok_def by blast

lemma timed_out_wf:
  assumes wf: "wf st" and t: "timeouts st rid = Some (e, due)" and ws: "eventReqs st e = Some ws"
  shows "wf (timed_out st rid e ws)"
proof -
  have ok: "\<And>r. rid_ok st r" using wf unfolding wf_def by blast
  have d: "dom (eventReqs (timed_out st rid e ws)) = dom (eventReqs st)"
    using ws by (auto simp: timed_out_fields)
  have "rid_ok (timed_out st rid e ws) r" for r
  proof (cases "r = rid")
    case True
    note g = timed_out_self[OF ok t, of ws]
    have "closeHandlers st rid = Some e" using armed_registered[OF ok t] by simp
    then have lt: "rid < nextReq st" using ok[of rid] unfolding rid_ok_def by blast
    show ?thesis
      using lt by (intro rid_ok_transfer[OF ok])
         (simp_all add: True g d timed_out_fields(4,5))
  next
    case False
    note g = timed_out_other[OF False ws]
    show ?thesis
      by (rule rid_ok_transfer[OF ok])
         (simp_all add: g d timed_out_fields(4,5) wait_state_ok[OF ok])
  qed
  then have "\<forall>r. rid_ok (timed_out st rid e ws) r" by blast
  then show ?thesis using wf d unfolding wf_def by (simp add: timed_out_fields)
qed

lemma closed_wf:
  assumes wf: "wf st" and c: "closeHandlers st rid = Some e" and ws: "eventReqs st e = Some ws"
  shows "wf (closed st rid e ws)"
proof -
  have ok: "\<And>r. rid_ok st r" using wf unfolding wf_def by blast
  have d: "dom (eventReqs (closed st rid e ws)) = dom (eventReqs st)"
    using ws by (auto simp: closed_fields)
  have "rid_ok (closed st rid e ws) r" for r
  proof (cases "r = rid")
    case True
    note g = closed_self[OF ok c, of ws]
    have "wait_state (closed st rid e ws) rid \<noteq> None"
      using g(1,2) wait_state_ok[OF ok c] by (cases "wait_state st rid = Some REGISTERED") simp_all
    then show ?thesis
      by (intro rid_ok_transfer[OF ok])
         (simp_all add: True g(3,4,5) d closed_fields(4,5))
  next
    case False
    note g = closed_other[OF False ws]
    show ?thesis
      by (rule rid_ok_transfer[OF ok])
         (simp_all add: g d closed_fields(4,5) wait_state_ok[OF ok])
  qed
  then have "\<forall>r. rid_ok (closed st rid e ws) r" by blast
  then show ?thesis using wf d unfolding wf_def by (simp add: closed_fields)
qed

lemma answered_wf:
  assumes wf: "wf st"
  shows "wf (answered st x)"
proof -
  have ok: "\<And>r. rid_ok st r" using wf unfolding wf_def by blast
  note f = fresh_request[OF ok]
  have "rid_ok (answered st x) r" for r
  proof (cases "r = nextReq st")
    case True
    show ?thesis
      by (rule rid_ok_transfer[OF ok]) (simp_all add: True f answered_fields)
  next
    case False
    note g = answered_other[OF False]
    show ?thesis
      by (rule rid_ok_transfer[OF ok])
         (simp_all add: g answered_fields(3,4,5,6,8) wait_state_ok[OF ok])
  qed
  then have "\<forall>r. rid_ok (answered st x) r" by blast
  then show ?thesis using wf unfolding wf_def by (simp add: answered_fields)
qed

lemma registered_wf:
  assumes wf: "wf st" and ws: "eventReqs st e = Some ws"
  shows "wf (registered st e ws now)"
proof -
  have ok: "\<And>r. rid_ok st r" using wf unfolding wf_def by blast
  note f = fresh_request[OF ok]
  have d: "dom (eventReqs (registered st e ws now)) = dom (eventReqs st)"
    using ws by (auto simp: registered_fields)
  have "rid_ok (registered st e ws now) r" for r
  proof (cases "r = nextReq st")
    case True
    note g = registered_self[OF ok, of e ws now]
    have w: "\<And>e'. nextReq st \<in> set (waiters (registered st e ws now) e') \<Longrightarrow> e' = e"
      using f by (simp add: registered_fields split: if_splits)
    have d': "e \<in> dom (eventReqs (registered st e ws now))" by (simp add: registered_fields)
    show ?thesis
      unfolding rid_ok_def True using g w d' by (auto simp: registered_fields(5))
  next
    case False
    note g = registered_other[OF False ws]
    show ?thesis
      by (rule rid_ok_transfer[OF ok])
         (simp_all add: g d registered_fields(5) wait_state_ok[OF ok])
  qed
  then have "\<forall>r. rid_ok (registered st e ws now) r" by blast
  then show ?thesis using wf d unfolding wf_def by (simp add: registered_fields)
qed

lemma GET_status_missing:
  assumes "a = None \<or> a = Some [] \<or> b = None"
  shows "GET_status tn st a b now = answered st missing_response"
  using assms
  by (auto simp: GET_status_def answered_def respond_def Let_def split: option.splits)

lemma GET_status_not_found:
  assumes "e \<noteq> []" "db st e = None"
  shows "GET_status tn st (Some e) (Some lu) now = answered st not_found_response"
  using assms
  by (simp add: GET_status_def answered_def respond_def Let_def)

lemma GET_status_immediate:
  assumes "e \<noteq> []" "db st e = Some it" "js_gt (updatedAt it) (tn lu)"
  shows "GET_status tn st (Some e) (Some lu) now = answered st (data_response (Some it))"
  using assms
  by (simp add: GET_status_def answered_def respond_def Let_def)

lemma GET_status_deferred:
  assumes "e \<noteq> []" "db st e = Some it" "\<not> js_gt (updatedAt it) (tn lu)"
      and "eventReqs st e = Some ws" "nextReq st \<notin> set ws"
  shows "GET_status tn st (Some e) (Some lu) now = registered st e ws now"
  using assms
  by (simp add: GET_status_def registered_def Let_def)

lemma GET_status_cases:
  assumes wf: "wf st"
  shows "(\<exists>e lu it ws. a = Some e \<and> b = Some lu \<and> e \<noteq> [] \<and> db st e = Some it
            \<and> \<not> js_gt (updatedAt it) (tn lu) \<and> eventReqs st e = Some ws
            \<and> GET_status tn st a b now = registered st e ws now)
       \<or> (\<exists>r. GET_status tn st a b now = answered st r)"
proof (cases "a = None \<or> a = Some [] \<or> b = None")
  case True
  have "GET_status tn st a b now = answered st missing_response"
    using True by (rule GET_status_missing)
  then show ?thesis by (intro disjI2 exI)
next
  case False
  then obtain e lu where ab: "a = Some e" "b = Some lu" "e \<noteq> []" by auto
  show ?thesis
  proof (cases "db st e")
    case None
    have "GET_status tn st a b now = answered st not_found_response"
      unfolding ab using ab(3) None by (rule GET_status_not_found)
    then show ?thesis by (intro disjI2 exI)
  next
    case (Some it)
    show ?thesis
    proof (cases "js_gt (updatedAt it) (tn lu)")
      case True
      have "GET_status tn st a b now = answered st (data_response (Some it))"
        unfolding ab using ab(3) Some True by (rule GET_status_immediate)
      then show ?thesis by (intro disjI2 exI)
    next
      case False
      have "e \<in> dom (eventReqs st)" using wf Some unfolding wf_def by blast
      then obtain ws where ws: "eventReqs st e = Some ws" by blast
      have ok: "rid_ok st (nextReq st)" using wf unfolding wf_def by blast
      have "nextReq st \<notin> set (waiters st e)" using fresh_request[OF ok] by blast
      then have "nextReq st \<notin> set ws" using ws by (simp add: waiters_Some)
      from GET_status_deferred[of e st it tn lu ws now, OF ab(3) Some False ws this]
      have "a = Some e \<and> b = Some lu \<and> e \<noteq> [] \<and> db st e = Some it
            \<and> \<not> js_gt (updatedAt it) (tn lu) \<and> eventReqs st e = Some ws
            \<and> GET_status tn st a b now = registered st e ws now"
        using ab Some False ws by simp
      then show ?thesis by (intro disjI1 exI)
    qed
  qed
qed

lemma step_wf:
  assumes wf: "wf st"
  shows "\<exists>st'. step tn st ev = Inr st' \<and> wf st'"
proof (cases ev)
  case (Request a b now)
  have s: "step tn st ev = Inr (GET_status tn st a b now)" by (simp add: step_def Request)
  have "wf (GET_status tn st a b now)"
  proof -
    from GET_status_cases[OF wf, of a b tn now]
    consider (reg) e ws where "eventReqs st e = Some ws"
        "GET_status tn st a b now = registered st e ws now"
      | (ans) r where "GET_status tn st a b now = answered st r"
      by blast
    then show ?thesis
    proof cases
      case reg
      show ?thesis unfolding reg(2) using wf reg(1) by (rule registered_wf)
    next
      case ans
      show ?thesis unfolding ans using wf by (rule answered_wf)
    qed
  qed
  then show ?thesis using s by simp
next
  case (EmitterFire e sc now)
  show ?thesis
  proof (cases "e \<in> set (emitters st)")
    case True
    from emitter_enabled[OF wf True] obtain it ws
      where d: "db st e = Some it" "eventReqs st e = Some ws" by blast
    show ?thesis
      using emitter_step[OF True d] emitted_wf[OF wf d] by (simp add: EmitterFire)
  next
    case False
    then show ?thesis using wf by (simp add: step_def EmitterFire)
  qed
next
  case (TimeoutFire rid t)
  show ?thesis
  proof (cases "timeouts st rid")
    case None
    then show ?thesis using wf by (simp add: step_def TimeoutFire)
  next
    case (Some p)
    obtain e due where p: "p = (e, due)" by (cases p)
    show ?thesis
    proof (cases "due \<le> t")
      case True
      have ok: "rid_ok st rid" using wf unfolding wf_def by blast
      have tm: "timeouts st rid = Some (e, due)" using Some p by simp
      have "e \<in> dom (eventReqs st)" using armed_registered[OF ok tm] by blast
      then obtain ws where ws: "eventReqs st e = Some ws" by blast
      show ?thesis
        using timeout_step[OF tm True ws] timed_out_wf[OF wf tm ws] by (simp add: TimeoutFire)
    next
      case False
      then show ?thesis using wf Some p by (simp add: step_def TimeoutFire)
    qed
  qed
next
  case (Close rid)
  show ?thesis
  proof (cases "closeHandlers st rid")
    case None
    then show ?thesis using wf by (simp add: step_def Close)
  next
    case (Some e)
    have ok: "rid_ok st rid" using wf unfolding wf_def by blast
    have "e \<in> dom (eventReqs st)" using ok Some unfolding rid_ok_def by blast
    then obtain ws where ws: "eventReqs st e = Some ws" by blast
    show ?thesis
      using close_step[OF Some ws] closed_wf[OF wf Some ws] by (simp add: Close)
  qed
qed

lemma run_wf:
  "wf st \<Longrightarrow> \<exists>st'. run tn st evs = Inr st' \<and> wf st'"
proof (induction evs arbitrary: st)
  case Nil
  then show ?case by simp
next
  case (Cons ev evs)
  from step_wf[OF Cons.prems, of tn ev] obtain st1
    where s: "step tn st ev = Inr st1" "wf st1" by blast
  from Cons.IH[OF s(2)] show ?case using s(1) by simp
qed

lemma loop_fields:
  "timeouts (mimicEvents_loop clock st i ids) = timeouts st"
  "closeHandlers (mimicEvents_loop clock st i ids) = closeHandlers st"
  "sent (mimicEvents_loop clock st i ids) = sent st"
  "nextReq (mimicEvents_loop clock st i ids) = nextReq st"
  "emitters (mimicEvents_loop clock st i ids) = emitters st @ ids"
  "dom (db (mimicEvents_loop clock st i ids)) = dom (db st) \<union> set ids"
  "dom (eventReqs (mimicEvents_loop clock st i ids)) = dom (eventReqs st) \<union> set ids"
  by (induction clock st i ids rule: mimicEvents_loop.induct) auto

lemma loop_waiters:
  "(\<forall>e. waiters st e = []) \<Longrightarrow> waiters (mimicEvents_loop clock st i ids) e = []"
  by (induction clock st i ids arbitrary: e rule: mimicEvents_loop.induct)
     (simp_all add: waiters_def)

lemma mimicEvents_wf: "wf (mimicEvents clock)"
proof -
  have w: "waiters (mimicEvents clock) e = []" for e
    unfolding mimicEvents_def by (rule loop_waiters) (simp add: waiters_def)
  have "rid_ok (mimicEvents clock) r" for r
    unfolding rid_ok_def by (simp add: w) (simp add: mimicEvents_def loop_fields)
  then have "\<forall>r. rid_ok (mimicEvents clock) r" by blast
  moreover have "set (emitters (mimicEvents clock)) = dom (db (mimicEvents clock))"
    by (simp add: mimicEvents_def loop_fields)
  moreover have "dom (eventReqs (mimicEvents clock)) = dom (db (mimicEvents clock))"
    by (simp add: mimicEvents_def loop_fields)
  ultimately show ?thesis unfolding wf_def by blast
qed

lemma reachable_wf:
  "\<exists>st. run tn (mimicEvents clock) evs = Inr st \<and> wf st"
  using run_wf[OF mimicEvents_wf] .

lemma wait_next_terminal: "w \<noteq> REGISTERED \<Longrightarrow> wait_next e rid due w ev = w"
  by (cases w) simp_all

lemma registered_facts:
  assumes ok: "rid_ok st rid" and c: "closeHandlers st rid = Some e"
      and w: "wait_state st rid = Some REGISTERED"
  shows "timeouts st rid = Some (e, due_of st rid) \<and> rid \<in> set (waiters st e) \<and> sent st rid = []"
proof -
  have a: "rid \<in> set (waiters st e) \<and> timeouts st rid \<noteq> None \<and> sent st rid = []"
    using w c by (auto simp: registered_iff)
  then obtain e' due where t: "timeouts st rid = Some (e', due)" by auto
  then have "closeHandlers st rid = Some e'" using ok unfolding rid_ok_def by blast
  then have "e' = e" using c by simp
  then show ?thesis using a t by (simp add: due_of_def)
qed

lemma step_wait:
  assumes wf: "wf st" and c: "closeHandlers st rid = Some e" and w: "wait_state st rid = Some w"
  shows "\<exists>st'. step tn st ev = Inr st' \<and> wf st' \<and> closeHandlers st' rid = Some e
           \<and> wait_state st' rid = Some (wait_next e rid (due_of st rid) w ev)
           \<and> (w \<noteq> REGISTERED \<longrightarrow> sent st' rid = sent st rid)
           \<and> (wait_next e rid (due_of st rid) w ev = REGISTERED \<longrightarrow>
                 timeouts st' rid = timeouts st rid)"
proof -
  have ok: "\<And>r. rid_ok st r" using wf unfolding wf_def by blast
  have lt: "rid < nextReq st" using ok[of rid] c unfolding rid_ok_def by blast
  have edom: "e \<in> dom (eventReqs st)" using ok[of rid] c unfolding rid_ok_def by blast
  have reg: "timeouts st rid = Some (e, due_of st rid) \<and> rid \<in> set (waiters st e) \<and> sent st rid = []"
    if "w = REGISTERED"
    using registered_facts[OF ok c] w that by simp
  have tfacts: "rid \<notin> set (waiters st e) \<and> timeouts st rid = None" if "w \<noteq> REGISTERED"
    using terminal_facts[OF c w that] .
  have same: "step tn st ev = Inr st \<Longrightarrow> wait_next e rid (due_of st rid) w ev = w \<Longrightarrow> ?thesis"
    using wf c w by simp
  show ?thesis
  proof (cases ev)
    case (Request a b now)
    have s: "step tn st ev = Inr (GET_status tn st a b now)" by (simp add: step_def Request)
    have n: "wait_next e rid (due_of st rid) w ev = w" by (cases w) (simp_all add: Request)
    have ne: "rid \<noteq> nextReq st" using lt by simp
    from GET_status_cases[OF wf, of a b tn now]
    consider (reg) e' ws where "eventReqs st e' = Some ws"
        "GET_status tn st a b now = registered st e' ws now"
      | (ans) r where "GET_status tn st a b now = answered st r"
      by blast
    then show ?thesis
    proof cases
      case reg
      note g = registered_other[OF ne reg(1), of now]
      show ?thesis
        unfolding s reg(2) n
        using registered_wf[OF wf reg(1), of now] g c w by simp
    next
      case ans
      note g = answered_other[OF ne, of r]
      show ?thesis
        unfolding s ans n
        using answered_wf[OF wf, of r] g c w by (simp add: answered_fields)
    qed
  next
    case (EmitterFire e' sc now)
    show ?thesis
    proof (cases "e' \<in> set (emitters st)")
      case False
      have "e' \<noteq> e" using False edom wf unfolding wf_def by auto
      then have n: "wait_next e rid (due_of st rid) w ev = w" by (cases w) (simp_all add: EmitterFire)
      have "step tn st ev = Inr st" using False by (simp add: step_def EmitterFire)
      then show ?thesis using n by (rule same)
    next
      case True
      from emitter_enabled[OF wf True] obtain it ws
        where d: "db st e' = Some it" "eventReqs st e' = Some ws" by blast
      have s: "step tn st ev = Inr (emitted st e' it ws sc now)"
        using emitter_step[OF True d] by (simp add: EmitterFire)
      have c': "closeHandlers (emitted st e' it ws sc now) rid = Some e"
        using c by (simp add: emitted_fields)
      show ?thesis
      proof (cases "rid \<in> set ws")
        case True
        then have "rid \<in> set (waiters st e')" using d by (simp add: waiters_Some)
        from member_registered[OF ok this]
        have "closeHandlers st rid = Some e'" "wait_state st rid = Some REGISTERED" by simp_all
        then have ee: "e' = e" "w = REGISTERED" using c w by simp_all
        have n: "wait_next e rid (due_of st rid) w ev = RESOLVED_BY_DATA"
          using ee by (simp add: EmitterFire)
        show ?thesis
          unfolding s n
          using emitted_wf[OF wf d, of sc now] emitted_waiter(1)[OF ok d(2) True, of it sc now] c' ee
          by simp
      next
        case False
        have "w = REGISTERED \<Longrightarrow> e' \<noteq> e"
          using reg False d by (auto simp: waiters_Some)
        then have n: "wait_next e rid (due_of st rid) w ev = w"
          by (cases w) (simp_all add: EmitterFire)
        show ?thesis
          unfolding s n
          using emitted_wf[OF wf d, of sc now] emitted_other[OF ok d(2) False, of it sc now] c' w
          by simp
      qed
    qed
  next
    case (TimeoutFire r t)
    show ?thesis
    proof (cases "\<exists>e' due. timeouts st r = Some (e', due) \<and> due \<le> t")
      case False
      have st: "step tn st ev = Inr st"
        using False by (cases "timeouts st r") (auto simp: step_def TimeoutFire)
      have "w = REGISTERED \<Longrightarrow> \<not> (r = rid \<and> due_of st rid \<le> t)"
        using reg False by auto
      then have n: "wait_next e rid (due_of st rid) w ev = w"
        by (cases w) (auto simp: TimeoutFire)
      show ?thesis using st n by (rule same)
    next
      case True
      then obtain e' due where tm: "timeouts st r = Some (e', due)" "due \<le> t" by blast
      have "e' \<in> dom (eventReqs st)" using armed_registered[OF ok tm(1)] by blast
      then obtain ws where ws: "eventReqs st e' = Some ws" by blast
      have s: "step tn st ev = Inr (timed_out st r e' ws)"
        using timeout_step[OF tm ws] by (simp add: TimeoutFire)
      have c': "closeHandlers (timed_out st r e' ws) rid = Some e"
        using c by (simp add: timed_out_fields)
      show ?thesis
      proof (cases "r = rid")
        case True
        have "closeHandlers st rid = Some e'" "wait_state st rid = Some REGISTERED"
          using armed_registered[OF ok tm(1)] True by simp_all
        then have ee: "e' = e" "w = REGISTERED" using c w by simp_all
        have "due_of st rid = due" using tm True by (simp add: due_of_def)
        then have n: "wait_next e rid (due_of st rid) w ev = RESOLVED_BY_TIMEOUT"
          using ee True tm by (simp add: TimeoutFire)
        show ?thesis
          unfolding s n
          using timed_out_wf[OF wf tm(1) ws] timed_out_self(1)[OF ok tm(1), of ws] c' ee True
          by simp
      next
        case False
        then have n: "wait_next e rid (due_of st rid) w ev = w"
          by (cases w) (auto simp: TimeoutFire)
        have ne: "rid \<noteq> r" using False by simp
        show ?thesis
          unfolding s n
          using timed_out_wf[OF wf tm(1) ws] timed_out_other(1,2,3)[OF ne ws] c' w
          by simp
      qed
    qed
  next
    case (Close r)
    show ?thesis
    proof (cases "closeHandlers st r")
      case None
      then have "r \<noteq> rid" using c by auto
      then have n: "wait_next e rid (due_of st rid) w ev = w" by (cases w) (auto simp: Close)
      have "step tn st ev = Inr st" using None by (simp add: step_def Close)
      then show ?thesis using n by (rule same)
    next
      case (Some e')
      have "e' \<in> dom (eventReqs st)" using ok[of r] Some unfolding rid_ok_def by blast
      then obtain ws where ws: "eventReqs st e' = Some ws" by blast
      have s: "step tn st ev = Inr (closed st r e' ws)"
        using close_step[OF Some ws] by (simp add: Close)
      have c': "closeHandlers (closed st r e' ws) rid = Some e"
        using c by (simp add: closed_fields)
      show ?thesis
      proof (cases "r = rid")
        case True
        have ee: "e' = e" using Some c True by simp
        have c2: "closeHandlers st rid = Some e'" using c ee by simp
        note g = closed_self[OF ok c2, of ws]
        show ?thesis
        proof (cases "w = REGISTERED")
          case True
          have n: "wait_next e rid (due_of st rid) w ev = CANCELLED"
            using True \<open>r = rid\<close> by (simp add: Close)
          show ?thesis
            unfolding s n
            using closed_wf[OF wf Some ws] g(1) c' w True \<open>r = rid\<close> by simp
        next
          case False
          then have n: "wait_next e rid (due_of st rid) w ev = w" by (rule wait_next_terminal)
          show ?thesis
            unfolding s n
            using closed_wf[OF wf Some ws] g(2,3) c' w False \<open>r = rid\<close> by simp
        qed
      next
        case False
        then have n: "wait_next e rid (due_of st rid) w ev = w"
          by (cases w) (auto simp: Close)
        have ne: "rid \<noteq> r" using False by simp
        show ?thesis
          unfolding s n
          using closed_wf[OF wf Some ws] closed_other(1,2,3)[OF ne ws] c' w
          by simp
      qed
    qed
  qed
qed



lemma terminal_forever:
  assumes "wf st" "closeHandlers st rid = Some e" "wait_state st rid = Some w" "w \<noteq> REGISTERED"
  shows "\<exists>st'. run tn st evs = Inr st' \<and> wf st' \<and> closeHandlers st' rid = Some e
            \<and> wait_state st' rid = Some w \<and> sent st' rid = sent st rid"
  using assms
proof (induction evs arbitrary: st)
  case Nil
  then show ?case by simp
next
  case (Cons ev evs)
  from step_wait[OF Cons.prems(1,2,3), of tn ev] obtain st1 where
    s: "step tn st ev = Inr st1" "wf st1" "closeHandlers st1 rid = Some e"
       "wait_state st1 rid = Some w" "sent st1 rid = sent st rid"
    using Cons.prems(4) by (auto simp: wait_next_terminal)
  from Cons.IH[OF s(2,3,4) Cons.prems(4)] show ?case using s(1,5) by simp
qed

lemma clear_then_notify_eq:
  assumes "db st e = Some it" "eventReqs st e = Some ws"
  shows "mutate_clear_then_notify st e sc now = Inr (emitted st e it ws sc now)"
proof -
  let ?st2 = "st\<lparr>db := (db st)(e \<mapsto> it\<lparr>score := score it + sc, updatedAt := now\<rparr>),
                eventReqs := (eventReqs st)(e \<mapsto> [])\<rparr>"
  have "mutate_clear_then_notify st e sc now = Inr (foldl (notify e) ?st2 ws)"
    using assms by (simp add: mutate_clear_then_notify_def Let_def)
  also have "foldl (notify e) ?st2 ws = emitted st e it ws sc now"
    unfolding emitted_def
    by (intro server.equality) (simp_all add: forEach_notify fun_eq_iff)
  finally show ?thesis .
qed

lemma s0_db: "db (mimicEvents clock) ''EVENT#00''
    = Some \<lparr>item_id = ''EVENT#00'', score = 0, updatedAt = clock 0\<rparr>"
  by (simp add: mimicEvents_def eventIds_def)

lemma s0_reqs: "eventReqs (mimicEvents clock) ''EVENT#00'' = Some []"
  by (simp add: mimicEvents_def eventIds_def)

lemma s0_misc: "nextReq (mimicEvents clock) = 0" "sent (mimicEvents clock) r = []"
  "timeouts (mimicEvents clock) r = None" "closeHandlers (mimicEvents clock) r = None"
  "''EVENT#00'' \<in> set (emitters (mimicEvents clock))"
  by (simp_all add: mimicEvents_def loop_fields eventIds_def)

lemma ex_register:
  "run digits_ToNumber (mimicEvents zero_clock) [Request (Some ''EVENT#00'') (Some ''0'') 0]
     = Inr (registered (mimicEvents zero_clock) ''EVENT#00'' [] 0)"
proof -
  have "GET_status digits_ToNumber (mimicEvents zero_clock) (Some ''EVENT#00'') (Some ''0'') 0
      = registered (mimicEvents zero_clock) ''EVENT#00'' [] 0"
    by (rule GET_status_deferred[OF _ s0_db _ s0_reqs])
       (simp_all add: js_gt_def digits_ToNumber_def zero_clock_def)
  then show ?thesis by (simp add: step_def)
qed


lemma reach_wf: "run tn (mimicEvents clock) evs = Inr st \<Longrightarrow> wf st"
  using reachable_wf[of tn clock evs] by auto



lemma waiting0_fields:
  "closeHandlers waiting0 0 = Some ''EVENT#00''"
  "timeouts waiting0 0 = Some (''EVENT#00'', 30000)"
  "sent waiting0 0 = []" "waiters waiting0 ''EVENT#00'' = [0]"
  "eventReqs waiting0 ''EVENT#00'' = Some [0]"
  "db waiting0 ''EVENT#00'' = Some \<lparr>item_id = ''EVENT#00'', score = 0, updatedAt = 0\<rparr>"
  "''EVENT#00'' \<in> set (emitters waiting0)"
  by (simp_all add: waiting0_def registered_fields s0_misc s0_db zero_clock_def)

lemma waiting0_run:
  "run digits_ToNumber (mimicEvents zero_clock) [Request (Some ''EVENT#00'') (Some ''0'') 0]
     = Inr waiting0"
  unfolding waiting0_def by (rule ex_register)


text \<open>
  Claim C2. In every reachable state, a mutation of an existing event \<open>e\<close> (one run of
  the emitter callback) sets the item's new score and \<open>updatedAt\<close>, and in the same step
  answers every request waiting on \<open>e\<close> with the 200 response carrying the mutated item,
  disarms its timer and leaves the waiter set of \<open>e\<close> empty: each such wait goes from
  registered to resolved-by-data at the mutation, whatever time its timer was due.
  Requests not waiting on \<open>e\<close>, and the other events, are untouched. The source notifies
  inside the loop and clears the set after it, all within one callback; the state it
  produces is the one clear-then-notify produces.
\<close>

theorem mutation_resolves_all_waiters:
  assumes reach: "run tn (mimicEvents clock) evs = Inr st" and item: "db st e = Some it"
  shows "\<exists>st'. step tn st (EmitterFire e sc now) = Inr st'
      \<and> mutate_clear_then_notify st e sc now = Inr st'
      \<and> db st' e = Some (it\<lparr>score := score it + sc, updatedAt := now\<rparr>)
      \<and> waiters st' e = []
      \<and> (\<forall>rid \<in> set (waiters st e).
            sent st rid = []
            \<and> sent st' rid = [data_response (Some (it\<lparr>score := score it + sc, updatedAt := now\<rparr>))]
            \<and> timeouts st' rid = None
            \<and> wait_state st rid = Some REGISTERED
            \<and> wait_state st' rid = Some RESOLVED_BY_DATA)
      \<and> (\<forall>rid. rid \<notin> set (waiters st e) \<longrightarrow>
            sent st' rid = sent st rid \<and> timeouts st' rid = timeouts st rid
            \<and> wait_state st' rid = wait_state st rid)
      \<and> (\<forall>e'. e' \<noteq> e \<longrightarrow> waiters st' e' = waiters st e' \<and> db st' e' = db st e')"
proof -
  have wf: "wf st" using reach by (rule reach_wf)
  have ok: "\<And>r. rid_ok st r" using wf unfolding wf_def by blast
  have em: "e \<in> set (emitters st)" using wf item unfolding wf_def by blast
  have "e \<in> dom (eventReqs st)" using wf item unfolding wf_def by blast
  then obtain ws where ws: "eventReqs st e = Some ws" by blast
  have wa: "waiters st e = ws" using ws by (rule waiters_Some)
  let ?st' = "emitted st e it ws sc now"
  have 1: "step tn st (EmitterFire e sc now) = Inr ?st'" using em item ws by (rule emitter_step)
  have 2: "mutate_clear_then_notify st e sc now = Inr ?st'"
    using item ws by (rule clear_then_notify_eq)
  have 3: "db ?st' e = Some (it\<lparr>score := score it + sc, updatedAt := now\<rparr>)"
    by (simp add: emitted_fields)
  have 4: "waiters ?st' e = []" by (simp add: emitted_fields)
  have 5: "\<forall>rid \<in> set (waiters st e).
            sent st rid = []
            \<and> sent ?st' rid = [data_response (Some (it\<lparr>score := score it + sc, updatedAt := now\<rparr>))]
            \<and> timeouts ?st' rid = None
            \<and> wait_state st rid = Some REGISTERED
            \<and> wait_state ?st' rid = Some RESOLVED_BY_DATA"
  proof
    fix rid assume m: "rid \<in> set (waiters st e)"
    then have m': "rid \<in> set ws" using wa by simp
    show "sent st rid = []
            \<and> sent ?st' rid = [data_response (Some (it\<lparr>score := score it + sc, updatedAt := now\<rparr>))]
            \<and> timeouts ?st' rid = None
            \<and> wait_state st rid = Some REGISTERED
            \<and> wait_state ?st' rid = Some RESOLVED_BY_DATA"
      using member_registered[OF ok m] emitted_waiter[OF ok ws m', of it sc now] by simp
  qed
  have 6: "\<forall>rid. rid \<notin> set (waiters st e) \<longrightarrow>
            sent ?st' rid = sent st rid \<and> timeouts ?st' rid = timeouts st rid
            \<and> wait_state ?st' rid = wait_state st rid"
    using emitted_other[OF ok ws] wa by simp
  have 7: "\<forall>e'. e' \<noteq> e \<longrightarrow> waiters ?st' e' = waiters st e' \<and> db ?st' e' = db st e'"
    by (simp add: emitted_fields)
  show ?thesis using 1 2 3 4 5 6 7 by blast
qed

theorem mutation_resolves_all_waiters_witness:
  "run digits_ToNumber (mimicEvents zero_clock) [Request (Some ''EVENT#00'') (Some ''0'') 0]
     = Inr waiting0
   \<and> db waiting0 ''EVENT#00'' = Some \<lparr>item_id = ''EVENT#00'', score = 0, updatedAt = 0\<rparr>
   \<and> waiters waiting0 ''EVENT#00'' = [0]
   \<and> timeouts waiting0 0 = Some (''EVENT#00'', 30000)
   \<and> (\<exists>st'. step digits_ToNumber waiting0 (EmitterFire ''EVENT#00'' 7 5000) = Inr st'
         \<and> sent st' 0 = [\<lparr>status = 200, success = True, message = ''Data fetched successfully'',
               data = ItemData \<lparr>item_id = ''EVENT#00'', score = 7, updatedAt = 5000\<rparr>\<rparr>]
         \<and> timeouts st' 0 = None \<and> waiters st' ''EVENT#00'' = [])"
proof -
  from mutation_resolves_all_waiters[OF waiting0_run waiting0_fields(6), of 7 5000]
  have "\<exists>st'. step digits_ToNumber waiting0 (EmitterFire ''EVENT#00'' 7 5000) = Inr st'
         \<and> sent st' 0 = [\<lparr>status = 200, success = True, message = ''Data fetched successfully'',
               data = ItemData \<lparr>item_id = ''EVENT#00'', score = 7, updatedAt = 5000\<rparr>\<rparr>]
         \<and> timeouts st' 0 = None \<and> waiters st' ''EVENT#00'' = []"
    by (auto simp: waiting0_fields data_response_def)
  then show ?thesis using waiting0_run waiting0_fields by simp
qed

lemma emitter_callback_db:
  assumes "db st e = Some it"
  shows "\<exists>st'. emitter_callback st e sc now = Inr st'
           \<and> db st' e = Some (it\<lparr>score := score it + sc, updatedAt := now\<rparr>)"
proof (cases "eventReqs st e")
  case None
  then show ?thesis using assms by (simp add: emitter_callback_def Let_def)
next
  case (Some ws)
  show ?thesis using emitter_callback_eq[OF assms Some] by simp
qed

text \<open>
  Claim C3, amended. In any state, a mutation of an existing event adds the increment to
  the score and sets \<open>updatedAt\<close> to the clock reading taken in the callback, nothing
  else: the new \<open>updatedAt\<close> is strictly greater than the previous one when the reading
  is, and is not greater when the reading is not. There is no counter beside the clock.
\<close>

theorem updatedAt_is_clock_reading:
  assumes "db st e = Some it"
  shows "\<exists>st' it'. emitter_callback st e sc now = Inr st' \<and> db st' e = Some it'
      \<and> updatedAt it' = now \<and> score it' = score it + sc
      \<and> (updatedAt it < now \<longrightarrow> updatedAt it < updatedAt it')
      \<and> (now \<le> updatedAt it \<longrightarrow> updatedAt it' \<le> updatedAt it)"
proof -
  from emitter_callback_db[OF assms, of sc now] obtain st' where
    s: "emitter_callback st e sc now = Inr st'"
       "db st' e = Some (it\<lparr>score := score it + sc, updatedAt := now\<rparr>)" by blast
  have "updatedAt (it\<lparr>score := score it + sc, updatedAt := now\<rparr>) = now
      \<and> score (it\<lparr>score := score it + sc, updatedAt := now\<rparr>) = score it + sc" by simp
  then show ?thesis using s by auto
qed

theorem updatedAt_is_clock_reading_witness:
  "db (mimicEvents zero_clock) ''EVENT#00''
     = Some \<lparr>item_id = ''EVENT#00'', score = 0, updatedAt = 0\<rparr>
   \<and> (\<exists>st' it'. emitter_callback (mimicEvents zero_clock) ''EVENT#00'' 3 5000 = Inr st'
         \<and> db st' ''EVENT#00'' = Some it' \<and> updatedAt it' = 5000 \<and> (0::int) < 5000
         \<and> 0 < updatedAt it')"
proof -
  have d: "db (mimicEvents zero_clock) ''EVENT#00''
     = Some \<lparr>item_id = ''EVENT#00'', score = 0, updatedAt = 0\<rparr>"
    by (simp add: s0_db zero_clock_def)
  from updatedAt_is_clock_reading[OF d, of 3 5000]
  show ?thesis using d by auto
qed

text \<open>
  Claim C3 as stated fails when the clock is coarser than the mutations: two mutations of
  \<open>EVENT#00\<close> that both read the clock at 5000 leave \<open>updatedAt\<close> at 5000 after the
  first and still at 5000 after the second, while the score moves from 3 to 7.
\<close>

theorem updatedAt_not_strict_counterexample:
  "run digits_ToNumber (mimicEvents zero_clock) [EmitterFire ''EVENT#00'' 3 5000] = Inr mutated_once
   \<and> run digits_ToNumber (mimicEvents zero_clock)
        [EmitterFire ''EVENT#00'' 3 5000, EmitterFire ''EVENT#00'' 4 5000] = Inr mutated_twice
   \<and> db mutated_once ''EVENT#00'' = Some \<lparr>item_id = ''EVENT#00'', score = 3, updatedAt = 5000\<rparr>
   \<and> db mutated_twice ''EVENT#00'' = Some \<lparr>item_id = ''EVENT#00'', score = 7, updatedAt = 5000\<rparr>"
proof -
  have d0: "db (mimicEvents zero_clock) ''EVENT#00''
     = Some \<lparr>item_id = ''EVENT#00'', score = 0, updatedAt = 0\<rparr>"
    by (simp add: s0_db zero_clock_def)
  have 1: "step digits_ToNumber (mimicEvents zero_clock) (EmitterFire ''EVENT#00'' 3 5000)
      = Inr mutated_once"
    unfolding mutated_once_def by (rule emitter_step[OF s0_misc(5) d0 s0_reqs])
  have d1: "db mutated_once ''EVENT#00''
      = Some \<lparr>item_id = ''EVENT#00'', score = 3, updatedAt = 5000\<rparr>"
    by (simp add: mutated_once_def emitted_fields)
  have r1: "eventReqs mutated_once ''EVENT#00'' = Some []"
    by (simp add: mutated_once_def emitted_fields)
  have e1: "''EVENT#00'' \<in> set (emitters mutated_once)"
    by (simp add: mutated_once_def emitted_fields s0_misc)
  have 2: "step digits_ToNumber mutated_once (EmitterFire ''EVENT#00'' 4 5000) = Inr mutated_twice"
    unfolding mutated_twice_def by (rule emitter_step[OF e1 d1 r1])
  have d2: "db mutated_twice ''EVENT#00''
      = Some \<lparr>item_id = ''EVENT#00'', score = 7, updatedAt = 5000\<rparr>"
    by (simp add: mutated_twice_def emitted_fields)
  show ?thesis using 1 2 d1 d2 by simp
qed




end
